theory Spec2Isabelle
  imports Complex_Main "HOL-Library.AList" "HOL-Library.Sublist" "HOL-Library.List_Lexorder" "HOL-Library.Char_ord"
begin

section \<open>The ProtT5 embedder: data model\<close>

text \<open>
  The development follows \<^verbatim>\<open>Partie_3_Embedding/prott5_embedder.py\<close>. The encoder
  (tokenizer and T5 model), torch's \<^verbatim>\<open>mean(dim=0)\<close> and numpy's printing of a float
  are library code; they are parameters of the model (record \<open>env\<close>), and the element
  type of a tensor is a type variable.
\<close>

text \<open>Exceptions that reach the model: a \<^verbatim>\<open>RuntimeError\<close> with its message, any other
  exception class raised by the encoder, and the errors Python itself raises in the code.\<close>

datatype exn =
    RuntimeError string
  | OtherError string
  | IndexError
  | ValueError string
  | ZeroDivisionError

text \<open>The device a forward pass runs on: the primary one (\<^verbatim>\<open>cuda:0\<close> when there is one)
  or the CPU of the fallback path.\<close>

datatype device = Gpu | Cpu

text \<open>One forward pass: the device and the batch of space-separated sequences.\<close>

type_synonym call = "device \<times> string list"

text \<open>A numpy array after \<^verbatim>\<open>squeeze()\<close>: 0-, 1- or 2-dimensional.\<close>

datatype 'a ndarray = Arr0 'a | Arr1 "'a list" | Arr2 "'a list list"

text \<open>\<^verbatim>\<open>emb_dict\<close>: a Python dict keeps its keys in insertion order and an assignment to
  a key that is present replaces the value in place; \<open>AList.update\<close> does both.\<close>

type_synonym 'a emb_dict = "(string \<times> 'a ndarray) list"

record 'a env =
  model :: "call list \<Rightarrow> device \<Rightarrow> string list \<Rightarrow> exn + 'a list list list"
  mean_dim0 :: "nat \<Rightarrow> 'a list list \<Rightarrow> 'a list"
  str_float :: "'a \<Rightarrow> string"

text \<open>
  \<open>model E h dev batch\<close> is tokenisation followed by the forward pass on \<open>dev\<close>, after the
  passes \<open>h\<close> already made (the model object is mutable: \<^verbatim>\<open>model.to("cpu", ...)\<close> and
  \<^verbatim>\<open>model.to(device)\<close> change it, so its answer may depend on the history). It returns
  \<^verbatim>\<open>last_hidden_state\<close>, one matrix (positions by hidden width) per sequence, or raises.
  \<open>mean_dim0 E w rows\<close> is \<^verbatim>\<open>mean(dim=0)\<close> of a tensor of shape \<open>[length rows, w]\<close>.
\<close>

record 'a state =
  emb_dict :: "'a emb_dict"
  calls :: "call list"
  files :: "string \<rightharpoonup> string"
  saves :: "'a emb_dict list"

text \<open>
  \<open>calls\<close> is the history of forward passes, latest last; \<open>files\<close> maps a path to the
  content of the file there; \<open>saves\<close> is the history of the dicts handed to
  \<^verbatim>\<open>save_ids_and_embeddings_tsv\<close>, latest last. Progress output is not modelled.
\<close>

section \<open>safe\_embed\<close>

definition lower_char :: "char \<Rightarrow> char" where
  "lower_char c =
     (let n = (of_char c :: nat) in if 65 \<le> n \<and> n \<le> 90 then char_of (n + 32) else c)"

text \<open>\<^verbatim>\<open>"out of memory" in str(e).lower()\<close>\<close>

definition is_oom :: "string \<Rightarrow> bool" where
  "is_oom msg = sublist ''out of memory'' (map lower_char msg)"

text \<open>Hidden width of a matrix given by its rows.\<close>

definition width :: "'a list list \<Rightarrow> nat" where
  "width rep = (case rep of [] \<Rightarrow> 0 | r # _ \<Rightarrow> length r)"

text \<open>numpy's \<^verbatim>\<open>squeeze()\<close> drops every axis of size one. A matrix with no row keeps
  no width in this representation and is left as it is.\<close>

definition squeeze1 :: "'a list \<Rightarrow> 'a ndarray" where
  "squeeze1 v = (case v of [x] \<Rightarrow> Arr0 x | _ \<Rightarrow> Arr1 v)"

definition squeeze2 :: "'a list list \<Rightarrow> 'a ndarray" where
  "squeeze2 rows =
     (case rows of
        [] \<Rightarrow> Arr2 []
      | [r] \<Rightarrow> squeeze1 r
      | _ \<Rightarrow> if \<forall>r \<in> set rows. length r = 1 then Arr1 (concat rows) else Arr2 rows)"

text \<open>Lines 123-126 and 142-145: truncate to the true length, pool when asked, squeeze.
  \<^verbatim>\<open>rep[:len]\<close> never raises: a slice past the end is cut, as \<open>take\<close> is.\<close>

definition pool :: "'a env \<Rightarrow> bool \<Rightarrow> nat \<Rightarrow> 'a list list \<Rightarrow> 'a ndarray" where
  "pool E per_protein len rep =
     (let emb = take len rep in
      if per_protein then squeeze1 (mean_dim0 E (width rep) emb) else squeeze2 emb)"

text \<open>The loop \<^verbatim>\<open>for b, uid in enumerate(ids)\<close> of lines 122-126, from index \<open>b\<close> on.
  \<^verbatim>\<open>lens[b]\<close> and \<^verbatim>\<open>reps[b]\<close> raise IndexError out of range; it is not a RuntimeError,
  so the handler of line 127 lets it through, with the entries written so far kept.\<close>

fun store_reps ::
  "'a env \<Rightarrow> 'a list list list \<Rightarrow> nat list \<Rightarrow> bool \<Rightarrow> nat \<Rightarrow> string list \<Rightarrow> 'a state
     \<Rightarrow> exn option \<times> 'a state" where
  "store_reps E reps lens per_protein b [] s = (None, s)"
| "store_reps E reps lens per_protein b (uid # ids) s =
     (if b < length lens \<and> b < length reps
      then store_reps E reps lens per_protein (Suc b) ids
             (s\<lparr>emb_dict := AList.update uid (pool E per_protein (lens ! b) (reps ! b)) (emb_dict s)\<rparr>)
      else (Some IndexError, s))"

text \<open>Lines 135-146, after the CPU pass has returned \<open>reps_cpu\<close>.\<close>

definition store_cpu ::
  "'a env \<Rightarrow> 'a list list list \<Rightarrow> nat list \<Rightarrow> bool \<Rightarrow> string \<Rightarrow> 'a state \<Rightarrow> exn option \<times> 'a state" where
  "store_cpu E reps_cpu lens per_protein uid s =
     (case lens of
        [] \<Rightarrow> (Some IndexError, s)
      | l # _ \<Rightarrow>
         (case reps_cpu of
            [] \<Rightarrow> (Some IndexError, s)
          | rep # _ \<Rightarrow> (None, s\<lparr>emb_dict := AList.update uid (pool E per_protein l rep) (emb_dict s)\<rparr>)))"

text \<open>
  \<open>safe_embed\<close> returns the exception that leaves it, if any, and the state then (a Python
  exception leaves the dict as it was written so far). The forward pass is recorded in
  \<open>calls\<close> before its outcome is looked at.
\<close>

function safe_embed ::
  "'a env \<Rightarrow> string list \<Rightarrow> string list \<Rightarrow> nat list \<Rightarrow> bool \<Rightarrow> 'a state \<Rightarrow> exn option \<times> 'a state" where
  "safe_embed E ids seqs_spaced lens per_protein s =
     (let s1 = s\<lparr>calls := calls s @ [(Gpu, seqs_spaced)]\<rparr> in
      case model E (calls s) Gpu seqs_spaced of
        Inr reps \<Rightarrow> store_reps E reps lens per_protein 0 ids s1
      | Inl e \<Rightarrow>
         (case e of
            RuntimeError msg \<Rightarrow>
              if is_oom msg then
                if length ids > 1 then
                  (let mid = length ids div 2 in
                   case safe_embed E (take mid ids) (take mid seqs_spaced) (take mid lens) per_protein s1 of
                     (Some e1, s2) \<Rightarrow> (Some e1, s2)
                   | (None, s2) \<Rightarrow>
                       safe_embed E (drop mid ids) (drop mid seqs_spaced) (drop mid lens) per_protein s2)
                else
                  (case ids of
                     [] \<Rightarrow> (Some IndexError, s1)
                   | uid # _ \<Rightarrow>
                      (let s2 = s1\<lparr>calls := calls s1 @ [(Cpu, seqs_spaced)]\<rparr> in
                       case model E (calls s1) Cpu seqs_spaced of
                         Inl e2 \<Rightarrow> (Some e2, s2)
                       | Inr reps_cpu \<Rightarrow> store_cpu E reps_cpu lens per_protein uid s2))
              else (Some e, s1)
          | _ \<Rightarrow> (Some e, s1)))"
  by pat_completeness auto
termination
  by (relation "measure (\<lambda>(E, ids, seqs_spaced, lens, per_protein, s). length ids)") auto

declare safe_embed.simps [simp del]

section \<open>save\_ids\_and\_embeddings\_tsv\<close>

text \<open>\<^verbatim>\<open>reshape(-1)\<close>: the elements in row-major order.\<close>

definition flatten :: "'a ndarray \<Rightarrow> 'a list" where
  "flatten a = (case a of Arr0 x \<Rightarrow> [x] | Arr1 v \<Rightarrow> v | Arr2 m \<Rightarrow> concat m)"

text \<open>\<^verbatim>\<open>sep.join(parts)\<close>\<close>

fun join :: "string \<Rightarrow> string list \<Rightarrow> string" where
  "join sep [] = []"
| "join sep [x] = x"
| "join sep (x # y # ys) = x @ sep @ join sep (y # ys)"

text \<open>Lines 61-62: one line of the file. The key comes from the dict's own keys, so the
  lookup finds it.\<close>

definition tsv_line :: "'a env \<Rightarrow> 'a emb_dict \<Rightarrow> string \<Rightarrow> string" where
  "tsv_line E d uid =
     (case map_of d uid of
        None \<Rightarrow> []
      | Some a \<Rightarrow> uid @ [CHR 0x09] @ join '' '' (map (str_float E) (flatten a)) @ [CHR 0x0A])"

text \<open>Lines 60-62: what the loop over \<^verbatim>\<open>sorted(emb_dict.keys())\<close> writes. Python orders
  strings by code point, as the lexicographic order on \<open>string\<close> does.\<close>

definition tsv_content :: "'a env \<Rightarrow> 'a emb_dict \<Rightarrow> string" where
  "tsv_content E d = concat (map (tsv_line E d) (sort (map fst d)))"

text \<open>Lines 55-62. Opening with mode \<^verbatim>\<open>"w"\<close> truncates the file, so what is written is
  the whole new content. A destination that cannot be opened is outside the model.\<close>

definition save_ids_and_embeddings_tsv ::
  "'a env \<Rightarrow> 'a emb_dict \<Rightarrow> string \<Rightarrow> (string \<rightharpoonup> string) \<Rightarrow> (string \<rightharpoonup> string)" where
  "save_ids_and_embeddings_tsv E d tsv_path fs =
     (if d = [] then fs else fs(tsv_path \<mapsto> tsv_content E d))"

section \<open>embed\_fasta\<close>

record config =
  max_residues :: int
  max_seq_len :: int
  max_batch :: int
  save_every :: int
  auto_shrink :: bool

text \<open>A member of the open batch: identifier, space-separated residues, length.\<close>

type_synonym entry = "string \<times> string \<times> nat"

definition replace_char :: "char \<Rightarrow> char \<Rightarrow> string \<Rightarrow> string" where
  "replace_char a b sq = map (\<lambda>c. if c = a then b else c) sq"

text \<open>Lines 181-182: the tuple appended to \<^verbatim>\<open>batch\<close>.\<close>

definition entry_of :: "string \<times> string \<Rightarrow> entry" where
  "entry_of kv =
     (let sq = replace_char CHR ''O'' CHR ''X''
                 (replace_char CHR ''Z'' CHR ''X'' (replace_char CHR ''U'' CHR ''X'' (snd kv)))
      in (fst kv, join '' '' (map (\<lambda>c. [c]) sq), length sq))"

definition entry_len :: "entry \<Rightarrow> nat" where
  "entry_len e = snd (snd e)"

text \<open>Lines 185-186, for the batch \<open>batch @ [e]\<close> after \<open>e\<close> was appended as the \<open>i\<close>-th of
  \<open>n\<close> entries.\<close>

definition flush_now :: "config \<Rightarrow> nat \<Rightarrow> nat \<Rightarrow> entry list \<Rightarrow> entry \<Rightarrow> bool" where
  "flush_now C n i batch e =
     (let res_ct = sum_list (map entry_len (batch @ [e])) in
      int (length (batch @ [e])) \<ge> max_batch C \<or> int res_ct \<ge> max_residues C \<or> i = n
        \<or> int (entry_len e) > max_seq_len C)"

text \<open>Lines 199-200, after the \<open>batch_idx\<close>-th batch was embedded.\<close>

definition save_step :: "'a env \<Rightarrow> string \<Rightarrow> 'a state \<Rightarrow> 'a state" where
  "save_step E out_npz s =
     s\<lparr>files := save_ids_and_embeddings_tsv E (emb_dict s) out_npz (files s),
       saves := saves s @ [emb_dict s]\<rparr>"

text \<open>
  The loop of lines 178-200 over the entries that remain, \<open>i\<close> the 1-based index of the
  next one and \<open>n\<close> their total number. \<^verbatim>\<open>batch_idx % save_every\<close> raises
  ZeroDivisionError when \<^verbatim>\<open>save_every\<close> is 0; Python's \<^verbatim>\<open>%\<close> on integers is \<open>mod\<close> on
  \<open>int\<close>. \<^verbatim>\<open>auto_shrink\<close> is a parameter of \<^verbatim>\<open>embed_fasta\<close> that its body never reads.
\<close>

fun embed_loop ::
  "'a env \<Rightarrow> string \<Rightarrow> bool \<Rightarrow> config \<Rightarrow> nat \<Rightarrow> nat \<Rightarrow> (string \<times> string) list \<Rightarrow> entry list \<Rightarrow> nat
     \<Rightarrow> 'a state \<Rightarrow> exn option \<times> 'a state" where
  "embed_loop E out_npz per_protein C n i [] batch batch_idx s = (None, s)"
| "embed_loop E out_npz per_protein C n i (kv # rest) batch batch_idx s =
     (let e = entry_of kv; batch1 = batch @ [e] in
      if \<not> flush_now C n i batch e
      then embed_loop E out_npz per_protein C n (Suc i) rest batch1 batch_idx s
      else
        (case safe_embed E (map fst batch1) (map (fst \<circ> snd) batch1) (map entry_len batch1)
                per_protein s of
           (Some x, s1) \<Rightarrow> (Some x, s1)
         | (None, s1) \<Rightarrow>
            if save_every C = 0 then (Some ZeroDivisionError, s1)
            else if int (Suc batch_idx) mod save_every C = 0 \<or> i = n
            then embed_loop E out_npz per_protein C n (Suc i) rest [] (Suc batch_idx)
                   (save_step E out_npz s1)
            else embed_loop E out_npz per_protein C n (Suc i) rest [] (Suc batch_idx) s1))"

text \<open>
  Lines 163-200. \<open>seqs\<close> is the dict that \<^verbatim>\<open>read_fasta\<close> returned, as its items in
  insertion order; \<open>fs\<close> is the file system the run starts with. \<^verbatim>\<open>sorted\<close> is stable,
  with \<^verbatim>\<open>reverse=True\<close> too, as \<open>sort_key\<close> on the negated length is.
\<close>

definition embed_fasta ::
  "'a env \<Rightarrow> (string \<times> string) list \<Rightarrow> string \<Rightarrow> bool \<Rightarrow> config \<Rightarrow> (string \<rightharpoonup> string)
     \<Rightarrow> exn option \<times> 'a state" where
  "embed_fasta E seqs out_npz per_protein C fs =
     (let s0 = \<lparr>emb_dict = [], calls = [], files = fs, saves = []\<rparr> in
      if seqs = [] then (Some (ValueError ''Empty FASTA or no IDs matched''), s0)
      else
        (let entries = sort_key (\<lambda>kv. - int (length (snd kv))) seqs in
         embed_loop E out_npz per_protein C (length entries) 1 entries [] 0 s0))"

text \<open>The batches the loop hands to \<open>safe_embed\<close>, in order, when no call fails: the
  loop above with its effects left out.\<close>

fun pack :: "config \<Rightarrow> nat \<Rightarrow> nat \<Rightarrow> (string \<times> string) list \<Rightarrow> entry list \<Rightarrow> entry list list" where
  "pack C n i [] batch = []"
| "pack C n i (kv # rest) batch =
     (let e = entry_of kv in
      if \<not> flush_now C n i batch e then pack C n (Suc i) rest (batch @ [e])
      else (batch @ [e]) # pack C n (Suc i) rest [])"

section \<open>Notions used in the statements\<close>

text \<open>Number of forward passes on the primary device in a history.\<close>

definition gpu_calls :: "call list \<Rightarrow> nat" where
  "gpu_calls h = length (filter (\<lambda>c. fst c = Gpu) h)"

text \<open>The encoder answers a batch with one matrix per sequence.\<close>

definition oracle_shaped :: "'a env \<Rightarrow> bool" where
  "oracle_shaped E \<longleftrightarrow>
     (\<forall>h dev batch reps. model E h dev batch = Inr reps \<longrightarrow> length reps = length batch)"

text \<open>On the primary device the encoder either returns or raises a RuntimeError whose
  message says out of memory.\<close>

definition gpu_fails_only_oom :: "'a env \<Rightarrow> bool" where
  "gpu_fails_only_oom E \<longleftrightarrow>
     (\<forall>h batch e. model E h Gpu batch = Inl e \<longrightarrow> (\<exists>msg. e = RuntimeError msg \<and> is_oom msg))"

text \<open>On the primary device the encoder never raises.\<close>

definition gpu_always_returns :: "'a env \<Rightarrow> bool" where
  "gpu_always_returns E \<longleftrightarrow>
     (\<forall>h batch. \<exists>reps. model E h Gpu batch = Inr reps \<and> length reps = length batch)"

text \<open>The message of an exception contains the identifier.\<close>

definition names_identifier :: "exn \<Rightarrow> string \<Rightarrow> bool" where
  "names_identifier e uid =
     (case e of
        RuntimeError msg \<Rightarrow> sublist uid msg
      | OtherError msg \<Rightarrow> sublist uid msg
      | ValueError msg \<Rightarrow> sublist uid msg
      | IndexError \<Rightarrow> False
      | ZeroDivisionError \<Rightarrow> False)"

text \<open>The values stored for a batch whose members have the true lengths \<open>lens\<close> and the raw
  encoder outputs \<open>R\<close>.\<close>

definition pooled :: "'a env \<Rightarrow> bool \<Rightarrow> nat list \<Rightarrow> 'a list list list \<Rightarrow> 'a ndarray list" where
  "pooled E pp lens R = map (\<lambda>(l, rep). pool E pp l rep) (zip lens R)"

text \<open>
  \<open>rep\<close> is what the encoder returned for member \<open>b\<close> of the batch \<open>seqs\<close> in a forward
  pass made after the history \<open>h0\<close> and recorded in \<open>h1\<close>: the pass was on a contiguous part
  of the batch that holds member \<open>b\<close>, it returned, and \<open>rep\<close> is its answer at the place of
  member \<open>b\<close>.
\<close>

definition embedded_from ::
  "'a env \<Rightarrow> call list \<Rightarrow> call list \<Rightarrow> string list \<Rightarrow> nat \<Rightarrow> 'a list list \<Rightarrow> bool" where
  "embedded_from E h0 h1 seqs b rep \<longleftrightarrow>
     (\<exists>pre dev ofs m post reps.
        h1 = h0 @ pre @ (dev, take m (drop ofs seqs)) # post \<and>
        model E (h0 @ pre) dev (take m (drop ofs seqs)) = Inr reps \<and>
        ofs \<le> b \<and> b < ofs + m \<and> ofs + m \<le> length seqs \<and>
        b - ofs < length reps \<and> rep = reps ! (b - ofs))"

text \<open>
  The per-protein run, from \<open>s\<close> to \<open>s'\<close>, and the per-position run, from \<open>t\<close> to \<open>t'\<close>,
  filled their dicts from the same raw encoder outputs \<open>R\<close>, one per member, each the
  encoder's answer for that member in a pass of the run.
\<close>

definition both_filled ::
  "'a env \<Rightarrow> 'a state \<Rightarrow> 'a state \<Rightarrow> string list \<Rightarrow> string list \<Rightarrow> nat list \<Rightarrow> 'a state \<Rightarrow> 'a state \<Rightarrow> bool" where
  "both_filled E s t ids seqs lens s' t' \<longleftrightarrow>
     (\<exists>R. length R = length ids \<and>
        emb_dict s' = emb_dict s @ zip ids (pooled E True lens R) \<and>
        emb_dict t' = emb_dict t @ zip ids (pooled E False lens R) \<and>
        (\<forall>b<length ids. embedded_from E (calls s) (calls s') seqs b (R ! b)))"

text \<open>Every dict handed to \<^verbatim>\<open>save_ids_and_embeddings_tsv\<close> so far is an initial
  segment of the next one, and the last of the current dict.\<close>

definition chain :: "'a state \<Rightarrow> bool" where
  "chain s \<longleftrightarrow> sorted_wrt prefix (saves s @ [emb_dict s])"

subsection \<open>The closing rule of the specification\<close>

text \<open>
  The specification's rule for the open unit \<open>u\<close>, whose last member was added as the
  \<open>i\<close>-th of \<open>n\<close> sequences: close it when the item count reaches \<^verbatim>\<open>max_batch_items\<close>,
  the cumulative residues reach \<^verbatim>\<open>max_total_residues\<close>, the sequence just added exceeds
  \<^verbatim>\<open>max_single_length\<close>, or the input is exhausted.
\<close>

definition spec_close :: "config \<Rightarrow> nat \<Rightarrow> nat \<Rightarrow> entry list \<Rightarrow> bool" where
  "spec_close C n i u \<longleftrightarrow>
     int (length u) \<ge> max_batch C \<or> int (sum_list (map entry_len u)) \<ge> max_residues C
       \<or> int (entry_len (last u)) > max_seq_len C \<or> i = n"

text \<open>The unit \<open>u\<close>, whose first member is the \<open>start\<close>-th sequence, was closed exactly
  when the rule asked for it: the rule holds after its last member and after no earlier one.\<close>

definition closes_exactly :: "config \<Rightarrow> nat \<Rightarrow> nat \<Rightarrow> entry list \<Rightarrow> bool" where
  "closes_exactly C n start u \<longleftrightarrow>
     u \<noteq> [] \<and>
     list_all (\<lambda>m. spec_close C n (start + m) (take (Suc m) u) = (Suc m = length u)) [0..<length u]"

fun units_ok :: "config \<Rightarrow> nat \<Rightarrow> nat \<Rightarrow> entry list list \<Rightarrow> bool" where
  "units_ok C n start [] = True"
| "units_ok C n start (u # us) = (closes_exactly C n start u \<and> units_ok C n (start + length u) us)"

subsection \<open>Stub encoders and inputs for concrete runs\<close>

text \<open>
  The stub of the specification's test scenarios: on the primary device it raises out of
  memory when the batch holds more than \<open>T\<close> residues; otherwise, and always on the CPU, it
  returns for each sequence one row per residue (the character code and 1) and one row for
  the end-of-sequence token. A number is printed as its integer part followed by
  \<^verbatim>\<open>.0\<close>.
\<close>

definition residues :: "string \<Rightarrow> nat" where
  "residues sq = length (filter (\<lambda>c. c \<noteq> CHR '' '') sq)"

definition stub_encode :: "string \<Rightarrow> real list list" where
  "stub_encode sq =
     map (\<lambda>c. [real (of_char c), 1]) (filter (\<lambda>c. c \<noteq> CHR '' '') sq) @ [[0, 0]]"

definition stub_model :: "nat \<Rightarrow> call list \<Rightarrow> device \<Rightarrow> string list \<Rightarrow> exn + real list list list" where
  "stub_model T h dev batch =
     (if dev = Gpu \<and> T < sum_list (map residues batch)
      then Inl (RuntimeError ''CUDA out of memory.'')
      else Inr (map stub_encode batch))"

text \<open>The mean of the stub: the arithmetic mean of each of the \<open>w\<close> columns, over the reals
  (no rounding; over no row it is 0, where torch gives NaN).\<close>

definition arith_mean :: "nat \<Rightarrow> real list list \<Rightarrow> real list" where
  "arith_mean w rows =
     map (\<lambda>j. sum_list (map (\<lambda>r. r ! j) rows) / real (length rows)) [0..<w]"

fun show_nat :: "nat \<Rightarrow> string" where
  "show_nat n =
     (if n < 10 then [''0123456789'' ! n]
      else show_nat (n div 10) @ [''0123456789'' ! (n mod 10)])"

declare show_nat.simps [simp del]

definition stub_str :: "real \<Rightarrow> string" where
  "stub_str x = show_nat (nat \<lfloor>x\<rfloor>) @ ''.0''"

definition stub_env :: "nat \<Rightarrow> real env" where
  "stub_env T = \<lparr>model = stub_model T, mean_dim0 = arith_mean, str_float = stub_str\<rparr>"

text \<open>An encoder that is out of memory on the primary device and fails on the CPU too.\<close>

definition failing_model :: "call list \<Rightarrow> device \<Rightarrow> string list \<Rightarrow> exn + real list list list" where
  "failing_model h dev batch =
     (if dev = Gpu then Inl (RuntimeError ''CUDA out of memory.'')
      else Inl (RuntimeError ''not enough memory''))"

definition failing_env :: "real env" where
  "failing_env = \<lparr>model = failing_model, mean_dim0 = arith_mean, str_float = stub_str\<rparr>"

definition empty_state :: "real state" where
  "empty_state = \<lparr>emb_dict = [], calls = [], files = Map.empty, saves = []\<rparr>"

definition seeded_state :: "real state" where
  "seeded_state = empty_state\<lparr>emb_dict := [(''p1'', Arr1 [0, 0])]\<rparr>"

text \<open>The defaults of the command line (lines 213-217).\<close>

definition default_config :: config where
  "default_config =
     \<lparr>max_residues = 4000, max_seq_len = 1000, max_batch = 256, save_every = 10000,
      auto_shrink = False\<rparr>"

text \<open>Five sequences of lengths 50, 40, 10, 10 and 5.\<close>

definition example_seqs :: "(string \<times> string) list" where
  "example_seqs =
     [(''s1'', replicate 50 CHR ''A''), (''s2'', replicate 40 CHR ''A''),
      (''s3'', replicate 10 CHR ''A''), (''s4'', replicate 10 CHR ''A''),
      (''s5'', replicate 5 CHR ''A'')]"

text \<open>A dict with three entries, not in key order.\<close>

definition example_dict :: "real emb_dict" where
  "example_dict = [(''b1'', Arr1 [1, 2]), (''a2'', Arr0 3), (''a10'', Arr2 [[1, 2], [3, 4]])]"

section \<open>Properties of safe\_embed\<close>

subsection \<open>One unfolding per path\<close>

lemma update_fresh: "k \<notin> fst ` set al \<Longrightarrow> AList.update k v al = al @ [(k, v)]"
  by (induction al) auto

lemma store_reps_frame:
  "store_reps E reps lens pp b ids s = (r, s') \<Longrightarrow>
     calls s' = calls s \<and> files s' = files s \<and> saves s' = saves s"
  by (induction ids arbitrary: b s) (auto split: if_splits)

lemma store_cpu_frame:
  "store_cpu E reps lens pp uid s = (r, s') \<Longrightarrow>
     calls s' = calls s \<and> files s' = files s \<and> saves s' = saves s"
  by (auto simp: store_cpu_def split: list.splits)

lemma safe_embed_ok:
  "model E (calls s) Gpu seqs = Inr reps \<Longrightarrow>
   safe_embed E ids seqs lens pp s =
     store_reps E reps lens pp 0 ids (s\<lparr>calls := calls s @ [(Gpu, seqs)]\<rparr>)"
  by (subst safe_embed.simps) simp

lemma safe_embed_split:
  "model E (calls s) Gpu seqs = Inl (RuntimeError msg) \<Longrightarrow> is_oom msg \<Longrightarrow> 1 < length ids \<Longrightarrow>
   safe_embed E ids seqs lens pp s =
     (case safe_embed E (take (length ids div 2) ids) (take (length ids div 2) seqs)
             (take (length ids div 2) lens) pp (s\<lparr>calls := calls s @ [(Gpu, seqs)]\<rparr>) of
        (Some e1, s2) \<Rightarrow> (Some e1, s2)
      | (None, s2) \<Rightarrow>
          safe_embed E (drop (length ids div 2) ids) (drop (length ids div 2) seqs)
            (drop (length ids div 2) lens) pp s2)"
  by (subst safe_embed.simps) (simp add: Let_def)

lemma safe_embed_single:
  "model E (calls s) Gpu seqs = Inl (RuntimeError msg) \<Longrightarrow> is_oom msg \<Longrightarrow>
   safe_embed E [uid] seqs lens pp s =
     (case model E (calls s @ [(Gpu, seqs)]) Cpu seqs of
        Inl e2 \<Rightarrow> (Some e2, s\<lparr>calls := calls s @ [(Gpu, seqs), (Cpu, seqs)]\<rparr>)
      | Inr reps_cpu \<Rightarrow>
          store_cpu E reps_cpu lens pp uid (s\<lparr>calls := calls s @ [(Gpu, seqs), (Cpu, seqs)]\<rparr>))"
  by (subst safe_embed.simps) (simp add: Let_def split: sum.splits)

lemma safe_embed_fatal:
  "model E (calls s) Gpu seqs = Inl e \<Longrightarrow> (\<forall>msg. e = RuntimeError msg \<longrightarrow> \<not> is_oom msg) \<Longrightarrow>
   safe_embed E ids seqs lens pp s = (Some e, s\<lparr>calls := calls s @ [(Gpu, seqs)]\<rparr>)"
  by (subst safe_embed.simps) (auto simp add: Let_def split: exn.splits)


subsection \<open>An induction rule that follows the paths\<close>

text \<open>
  To prove \<open>P\<close> of the arguments, the state and the result of \<open>safe_embed\<close>: one case
  for a primary pass that returns, one for a failure that is not out of memory, one for an
  empty batch, one for a batch of one sequence, and two for a split (the first half raises,
  or it returns and the second half runs in the state it left).
\<close>

lemma gpu_calls_append [simp]: "gpu_calls (h @ k) = gpu_calls h + gpu_calls k"
  by (simp add: gpu_calls_def)

lemma gpu_calls_simps [simp]:
  "gpu_calls [] = 0" "gpu_calls ((Gpu, b) # h) = Suc (gpu_calls h)"
  "gpu_calls ((Cpu, b) # h) = gpu_calls h"
  by (simp_all add: gpu_calls_def)

lemma safe_embed_rule [case_names ok fatal empty single split_fail split_ok]:
  assumes ok: "\<And>ids seqs lens s reps.
      model E (calls s) Gpu seqs = Inr reps \<Longrightarrow>
      P ids seqs lens s (store_reps E reps lens pp 0 ids (s\<lparr>calls := calls s @ [(Gpu, seqs)]\<rparr>))"
    and fatal: "\<And>ids seqs lens s e.
      model E (calls s) Gpu seqs = Inl e \<Longrightarrow> \<forall>msg. e = RuntimeError msg \<longrightarrow> \<not> is_oom msg \<Longrightarrow>
      P ids seqs lens s (Some e, s\<lparr>calls := calls s @ [(Gpu, seqs)]\<rparr>)"
    and empty: "\<And>seqs lens s msg.
      model E (calls s) Gpu seqs = Inl (RuntimeError msg) \<Longrightarrow> is_oom msg \<Longrightarrow>
      P [] seqs lens s (Some IndexError, s\<lparr>calls := calls s @ [(Gpu, seqs)]\<rparr>)"
    and single: "\<And>uid seqs lens s msg.
      model E (calls s) Gpu seqs = Inl (RuntimeError msg) \<Longrightarrow> is_oom msg \<Longrightarrow>
      P [uid] seqs lens s
        (case model E (calls s @ [(Gpu, seqs)]) Cpu seqs of
           Inl e2 \<Rightarrow> (Some e2, s\<lparr>calls := calls s @ [(Gpu, seqs), (Cpu, seqs)]\<rparr>)
         | Inr reps_cpu \<Rightarrow>
             store_cpu E reps_cpu lens pp uid (s\<lparr>calls := calls s @ [(Gpu, seqs), (Cpu, seqs)]\<rparr>))"
    and split_fail: "\<And>ids seqs lens s msg e1 s2.
      model E (calls s) Gpu seqs = Inl (RuntimeError msg) \<Longrightarrow> is_oom msg \<Longrightarrow> 1 < length ids \<Longrightarrow>
      safe_embed E (take (length ids div 2) ids) (take (length ids div 2) seqs)
        (take (length ids div 2) lens) pp (s\<lparr>calls := calls s @ [(Gpu, seqs)]\<rparr>) = (Some e1, s2) \<Longrightarrow>
      P (take (length ids div 2) ids) (take (length ids div 2) seqs) (take (length ids div 2) lens)
        (s\<lparr>calls := calls s @ [(Gpu, seqs)]\<rparr>) (Some e1, s2) \<Longrightarrow>
      P ids seqs lens s (Some e1, s2)"
    and split_ok: "\<And>ids seqs lens s msg s2.
      model E (calls s) Gpu seqs = Inl (RuntimeError msg) \<Longrightarrow> is_oom msg \<Longrightarrow> 1 < length ids \<Longrightarrow>
      safe_embed E (take (length ids div 2) ids) (take (length ids div 2) seqs)
        (take (length ids div 2) lens) pp (s\<lparr>calls := calls s @ [(Gpu, seqs)]\<rparr>) = (None, s2) \<Longrightarrow>
      P (take (length ids div 2) ids) (take (length ids div 2) seqs) (take (length ids div 2) lens)
        (s\<lparr>calls := calls s @ [(Gpu, seqs)]\<rparr>) (None, s2) \<Longrightarrow>
      P (drop (length ids div 2) ids) (drop (length ids div 2) seqs) (drop (length ids div 2) lens) s2
        (safe_embed E (drop (length ids div 2) ids) (drop (length ids div 2) seqs)
           (drop (length ids div 2) lens) pp s2) \<Longrightarrow>
      P ids seqs lens s
        (safe_embed E (drop (length ids div 2) ids) (drop (length ids div 2) seqs)
           (drop (length ids div 2) lens) pp s2)"
  shows "P ids seqs lens s (safe_embed E ids seqs lens pp s)"
proof (induction "length ids" arbitrary: ids seqs lens s rule: less_induct)
  case less
  let ?s1 = "s\<lparr>calls := calls s @ [(Gpu, seqs)]\<rparr>"
  let ?mid = "length ids div 2"
  show ?case
  proof (cases "model E (calls s) Gpu seqs")
    case (Inr reps)
    from ok [OF Inr] show ?thesis
      by (simp add: safe_embed_ok [OF Inr])
  next
    case (Inl e)
    show ?thesis
    proof (cases "\<exists>msg. e = RuntimeError msg \<and> is_oom msg")
      case False
      then have ne: "\<forall>msg. e = RuntimeError msg \<longrightarrow> \<not> is_oom msg" by blast
      from fatal [OF Inl ne] show ?thesis
        by (simp add: safe_embed_fatal [OF Inl ne])
    next
      case True
      then obtain msg where e: "e = RuntimeError msg" and oom: "is_oom msg" by blast
      note m = Inl [unfolded e]
      consider (nil) "ids = []" | (one) uid where "ids = [uid]" | (more) "1 < length ids"
        by (cases ids rule: list.exhaust, simp, rename_tac a as, case_tac as, auto)
      then show ?thesis
      proof cases
        case nil
        have "safe_embed E [] seqs lens pp s = (Some IndexError, ?s1)"
          by (subst safe_embed.simps) (simp add: m oom)
        with empty [OF m oom] nil show ?thesis by simp
      next
        case one
        from single [OF m oom, of uid lens] show ?thesis
          by (simp add: one safe_embed_single [OF m oom])
      next
        case more
        then have mid: "0 < ?mid" "?mid < length ids" by auto
        obtain r1 s2 where
          l: "safe_embed E (take ?mid ids) (take ?mid seqs) (take ?mid lens) pp ?s1 = (r1, s2)"
          by (cases "safe_embed E (take ?mid ids) (take ?mid seqs) (take ?mid lens) pp ?s1")
        have "P (take ?mid ids) (take ?mid seqs) (take ?mid lens) ?s1
                (safe_embed E (take ?mid ids) (take ?mid seqs) (take ?mid lens) pp ?s1)"
          using mid by (intro less.hyps) auto
        then have p1: "P (take ?mid ids) (take ?mid seqs) (take ?mid lens) ?s1 (r1, s2)"
          by (simp add: l)
        show ?thesis
        proof (cases r1)
          case (Some e1)
          from split_fail [OF m oom more l [unfolded Some] p1 [unfolded Some]] show ?thesis
            by (simp add: safe_embed_split [OF m oom more] l Some)
        next
          case None
          have "P (drop ?mid ids) (drop ?mid seqs) (drop ?mid lens) s2
                  (safe_embed E (drop ?mid ids) (drop ?mid seqs) (drop ?mid lens) pp s2)"
            using mid by (intro less.hyps) auto
          from split_ok [OF m oom more l [unfolded None] p1 [unfolded None] this] show ?thesis
            by (simp add: safe_embed_split [OF m oom more] l None)
        qed
      qed
    qed
  qed
qed



lemma store_reps_snd [simp]:
  "calls (snd (store_reps E reps lens pp b ids s)) = calls s"
  "files (snd (store_reps E reps lens pp b ids s)) = files s"
  "saves (snd (store_reps E reps lens pp b ids s)) = saves s"
  using store_reps_frame [of E reps lens pp b ids s]
  by (cases "store_reps E reps lens pp b ids s"; simp)+

lemma store_cpu_snd [simp]:
  "calls (snd (store_cpu E reps lens pp uid s)) = calls s"
  "files (snd (store_cpu E reps lens pp uid s)) = files s"
  "saves (snd (store_cpu E reps lens pp uid s)) = saves s"
  using store_cpu_frame [of E reps lens pp uid s]
  by (cases "store_cpu E reps lens pp uid s"; simp)+

lemma safe_embed_frame:
  "files (snd (safe_embed E ids seqs lens pp s)) = files s \<and>
   saves (snd (safe_embed E ids seqs lens pp s)) = saves s"
  by (rule safe_embed_rule [where P = "\<lambda>ids seqs lens s res.
    files (snd res) = files s \<and> saves (snd res) = saves s"])
     (auto split: sum.splits)

lemma safe_embed_calls:
  "\<exists>k. calls (snd (safe_embed E ids seqs lens pp s)) = calls s @ k"
  by (rule safe_embed_rule [where P = "\<lambda>ids seqs lens s res. \<exists>k. calls (snd res) = calls s @ k"])
     (auto split: sum.splits)

subsection \<open>One entry per member\<close>

lemma store_reps_append:
  "distinct ids \<Longrightarrow> set ids \<inter> fst ` set (emb_dict s) = {} \<Longrightarrow>
   b + length ids \<le> length lens \<Longrightarrow> b + length ids \<le> length reps \<Longrightarrow>
   store_reps E reps lens pp b ids s =
     (None, s\<lparr>emb_dict := emb_dict s @
        zip ids (map (\<lambda>i. pool E pp (lens ! i) (reps ! i)) [b..<b + length ids])\<rparr>)"
proof (induction ids arbitrary: b s)
  case Nil
  then show ?case by simp
next
  case (Cons uid ids)
  let ?v = "pool E pp (lens ! b) (reps ! b)"
  let ?s = "s\<lparr>emb_dict := AList.update uid ?v (emb_dict s)\<rparr>"
  from Cons.prems have fresh: "uid \<notin> fst ` set (emb_dict s)" by auto
  then have upd: "AList.update uid ?v (emb_dict s) = emb_dict s @ [(uid, ?v)]"
    by (rule update_fresh)
  have "store_reps E reps lens pp (Suc b) ids ?s =
     (None, ?s\<lparr>emb_dict := emb_dict ?s @
        zip ids (map (\<lambda>i. pool E pp (lens ! i) (reps ! i)) [Suc b..<Suc b + length ids])\<rparr>)"
    using Cons.prems by (intro Cons.IH) (auto simp: upd)
  moreover have "[b..<b + length (uid # ids)] = b # [Suc b..<Suc b + length ids]"
    by (subst upt_rec) simp
  ultimately show ?case
    using Cons.prems by (simp add: upd)
qed

lemma safe_embed_exactly_once_aux:
  assumes sh: "oracle_shaped E" and oom: "gpu_fails_only_oom E"
  shows "length seqs = length ids \<and> length lens = length ids \<and> ids \<noteq> [] \<and> distinct ids
           \<and> set ids \<inter> fst ` set (emb_dict s) = {} \<longrightarrow>
         (case safe_embed E ids seqs lens pp s of
            (None, s') \<Rightarrow> \<exists>vals. length vals = length ids \<and> emb_dict s' = emb_dict s @ zip ids vals
          | (Some e, s') \<Rightarrow> \<exists>h sq. calls s' = h @ [(Cpu, [sq])] \<and> model E h Cpu [sq] = Inl e)"
proof (rule safe_embed_rule [where P = "\<lambda>ids seqs lens s res.
    length seqs = length ids \<and> length lens = length ids \<and> ids \<noteq> [] \<and> distinct ids
      \<and> set ids \<inter> fst ` set (emb_dict s) = {} \<longrightarrow>
    (case res of
       (None, s') \<Rightarrow> \<exists>vals. length vals = length ids \<and> emb_dict s' = emb_dict s @ zip ids vals
     | (Some e, s') \<Rightarrow> \<exists>h sq. calls s' = h @ [(Cpu, [sq])] \<and> model E h Cpu [sq] = Inl e)"],
    goal_cases)
  case (1 ids seqs lens s reps)
  show ?case
  proof (intro impI, elim conjE)
    assume a: "length seqs = length ids" "length lens = length ids" "distinct ids"
      "set ids \<inter> fst ` set (emb_dict s) = {}"
    from sh 1 have "length reps = length seqs" by (auto simp: oracle_shaped_def)
    with a show "case store_reps E reps lens pp 0 ids (s\<lparr>calls := calls s @ [(Gpu, seqs)]\<rparr>) of
        (None, s') \<Rightarrow> \<exists>vals. length vals = length ids \<and> emb_dict s' = emb_dict s @ zip ids vals
      | (Some e, s') \<Rightarrow> \<exists>h sq. calls s' = h @ [(Cpu, [sq])] \<and> model E h Cpu [sq] = Inl e"
      by (subst store_reps_append)
         (auto intro!: exI [of _ "map (\<lambda>i. pool E pp (lens ! i) (reps ! i)) [0..<length ids]"])
  qed
next
  case (2 ids seqs lens s e)
  with oom show ?case by (auto simp: gpu_fails_only_oom_def)
next
  case (3 seqs lens s msg)
  then show ?case by simp
next
  case (4 uid seqs lens s msg)
  show ?case
  proof (intro impI, elim conjE)
    assume a: "length seqs = length [uid]" "length lens = length [uid]"
      "set [uid] \<inter> fst ` set (emb_dict s) = {}"
    then obtain sq l where sq: "seqs = [sq]" and l: "lens = [l]"
      by (cases seqs; cases lens) auto
    from a have fresh: "uid \<notin> fst ` set (emb_dict s)" by auto
    show "case (case model E (calls s @ [(Gpu, seqs)]) Cpu seqs of
             Inl e2 \<Rightarrow> (Some e2, s\<lparr>calls := calls s @ [(Gpu, seqs), (Cpu, seqs)]\<rparr>)
           | Inr reps_cpu \<Rightarrow>
               store_cpu E reps_cpu lens pp uid (s\<lparr>calls := calls s @ [(Gpu, seqs), (Cpu, seqs)]\<rparr>)) of
        (None, s') \<Rightarrow> \<exists>vals. length vals = length [uid] \<and> emb_dict s' = emb_dict s @ zip [uid] vals
      | (Some e, s') \<Rightarrow> \<exists>h sq. calls s' = h @ [(Cpu, [sq])] \<and> model E h Cpu [sq] = Inl e"
    proof (cases "model E (calls s @ [(Gpu, seqs)]) Cpu seqs")
      case (Inl e2)
      then have "calls s @ [(Gpu, seqs), (Cpu, seqs)] = (calls s @ [(Gpu, seqs)]) @ [(Cpu, [sq])]
          \<and> model E (calls s @ [(Gpu, seqs)]) Cpu [sq] = Inl e2"
        by (simp add: sq)
      with Inl show ?thesis by (simp del: append_assoc)
    next
      case (Inr reps_cpu)
      with sh have "length reps_cpu = 1" by (auto simp: oracle_shaped_def sq)
      then obtain rep where rep: "reps_cpu = [rep]" by (cases reps_cpu) auto
      show ?thesis
        by (simp add: Inr rep l store_cpu_def update_fresh [OF fresh])
           (rule exI [of _ "[pool E pp l rep]"], simp)
    qed
  qed
next
  case (5 ids seqs lens s msg e1 s2)
  let ?mid = "length ids div 2"
  show ?case
  proof (intro impI, elim conjE)
    assume a: "length seqs = length ids" "length lens = length ids" "distinct ids"
      "set ids \<inter> fst ` set (emb_dict s) = {}"
    from 5(3) have mid: "0 < ?mid" "?mid < length ids" by auto
    have "set (take ?mid ids) \<subseteq> set ids"
      by (auto dest: in_set_takeD)
    with a have "set (take ?mid ids) \<inter> fst ` set (emb_dict s) = {}" by auto
    with 5(5) a mid
    show "case (Some e1, s2) of
        (None, s') \<Rightarrow> \<exists>vals. length vals = length ids \<and> emb_dict s' = emb_dict s @ zip ids vals
      | (Some e, s') \<Rightarrow> \<exists>h sq. calls s' = h @ [(Cpu, [sq])] \<and> model E h Cpu [sq] = Inl e"
      by (cases ids) (simp_all add: min_def)
  qed
next
  case (6 ids seqs lens s msg s2)
  let ?mid = "length ids div 2"
  let ?r = "safe_embed E (drop ?mid ids) (drop ?mid seqs) (drop ?mid lens) pp s2"
  show ?case
  proof (intro impI, elim conjE)
    assume a: "length seqs = length ids" "length lens = length ids" "distinct ids"
      "set ids \<inter> fst ` set (emb_dict s) = {}"
    from 6(3) have mid: "0 < ?mid" "?mid < length ids" by auto
    have sub: "set (take ?mid ids) \<subseteq> set ids" "set (drop ?mid ids) \<subseteq> set ids"
      by (auto dest: in_set_takeD in_set_dropD)
    have dis: "distinct (take ?mid ids)" "distinct (drop ?mid ids)"
      "set (take ?mid ids) \<inter> set (drop ?mid ids) = {}"
      using a(3) distinct_append [of "take ?mid ids" "drop ?mid ids"] by simp_all
    from 6(5) a mid sub dis obtain vals1 where
      v1: "length vals1 = length (take ?mid ids)"
        "emb_dict s2 = emb_dict s @ zip (take ?mid ids) vals1"
      by (auto simp: min_def)
    have keys2: "fst ` set (emb_dict s2) = fst ` set (emb_dict s) \<union> set (take ?mid ids)"
      using v1 by (simp add: image_Un del: length_take) (metis map_fst_zip set_map)
    have pre: "length (drop ?mid seqs) = length (drop ?mid ids) \<and>
          length (drop ?mid lens) = length (drop ?mid ids) \<and> drop ?mid ids \<noteq> [] \<and>
          distinct (drop ?mid ids) \<and> set (drop ?mid ids) \<inter> fst ` set (emb_dict s2) = {}"
      using a mid sub dis keys2 by auto
    show "case ?r of
        (None, s') \<Rightarrow> \<exists>vals. length vals = length ids \<and> emb_dict s' = emb_dict s @ zip ids vals
      | (Some e, s') \<Rightarrow> \<exists>h sq. calls s' = h @ [(Cpu, [sq])] \<and> model E h Cpu [sq] = Inl e"
    proof (cases ?r)
      case (Pair r s')
      show ?thesis
      proof (cases r)
        case (Some e)
        with 6(6) pre Pair show ?thesis by simp
      next
        case None
        with 6(6) pre Pair obtain vals2 where
          v2: "length vals2 = length (drop ?mid ids)"
            "emb_dict s' = emb_dict s2 @ zip (drop ?mid ids) vals2"
          by auto
        have "zip (take ?mid ids) vals1 @ zip (drop ?mid ids) vals2
                = zip (take ?mid ids @ drop ?mid ids) (vals1 @ vals2)"
          using v1(1) by (simp only: zip_append)
        then have "emb_dict s' = emb_dict s @ zip ids (vals1 @ vals2)"
          using v1(2) v2(2) by simp
        moreover have "length (vals1 @ vals2) = length ids"
          using v1(1) v2(1) mid by simp
        ultimately show ?thesis
          using Pair None by (auto intro!: exI [of _ "vals1 @ vals2"])
      qed
    qed
  qed
qed



subsection \<open>The stub encoder\<close>

lemma stub_oom: "is_oom ''CUDA out of memory.''"
  by code_simp

lemma stub_shaped: "oracle_shaped (stub_env T)"
  by (simp add: oracle_shaped_def stub_env_def stub_model_def split: if_splits)

lemma stub_only_oom: "gpu_fails_only_oom (stub_env T)"
  by (simp add: gpu_fails_only_oom_def stub_env_def stub_model_def stub_oom split: if_splits)


section \<open>Properties of the loop of embed\_fasta\<close>

subsection \<open>The batches\<close>

lemma entry_of_simps [simp]:
  "fst (entry_of kv) = fst kv" "entry_len (entry_of kv) = length (snd kv)"
  by (simp_all add: entry_of_def entry_len_def replace_char_def Let_def)

lemma flush_now_spec_close:
  "flush_now C n i batch e = spec_close C n i (batch @ [e])"
  by (auto simp: flush_now_def spec_close_def Let_def)

lemma pack_units_aux:
  assumes "i + length es = Suc n" and "length batch < i"
    and "\<forall>m < length batch. \<not> spec_close C n (i - length batch + m) (take (Suc m) batch)"
  shows "concat (pack C n i es batch) = (if es = [] then [] else batch @ map entry_of es) \<and>
         units_ok C n (i - length batch) (pack C n i es batch)"
  using assms
proof (induction es arbitrary: i batch)
  case Nil
  then show ?case by simp
next
  case (Cons kv rest)
  let ?e = "entry_of kv"
  let ?b = "batch @ [?e]"
  show ?case
  proof (cases "flush_now C n i batch ?e")
    case False
    with Cons.prems(1) have rest: "rest \<noteq> []"
      by (auto simp: flush_now_def Let_def)
    have open': "\<forall>m < length ?b. \<not> spec_close C n (Suc i - length ?b + m) (take (Suc m) ?b)"
    proof (intro allI impI)
      fix m assume m: "m < length ?b"
      show "\<not> spec_close C n (Suc i - length ?b + m) (take (Suc m) ?b)"
      proof (cases "m < length batch")
        case True
        with Cons.prems(2,3) show ?thesis by (simp add: Suc_diff_le)
      next
        case False
        with m have "m = length batch" by simp
        with \<open>\<not> flush_now C n i batch ?e\<close> Cons.prems(2) show ?thesis
          by (simp add: flush_now_spec_close)
      qed
    qed
    have "concat (pack C n (Suc i) rest ?b) = (if rest = [] then [] else ?b @ map entry_of rest) \<and>
          units_ok C n (Suc i - length ?b) (pack C n (Suc i) rest ?b)"
      using Cons.prems(1,2) open' by (intro Cons.IH) auto
    with False rest Cons.prems(2) show ?thesis
      by (simp add: Let_def Suc_diff_le)
  next
    case True
    have ih: "concat (pack C n (Suc i) rest []) = (if rest = [] then [] else [] @ map entry_of rest) \<and>
          units_ok C n (Suc i - length ([] :: entry list)) (pack C n (Suc i) rest [])"
      using Cons.prems(1) by (intro Cons.IH) auto
    have ce: "closes_exactly C n (i - length batch) ?b"
      unfolding closes_exactly_def list_all_iff
    proof (intro conjI ballI)
      show "?b \<noteq> []" by simp
      fix m assume "m \<in> set [0..<length ?b]"
      then have m: "m < length ?b" by auto
      show "spec_close C n (i - length batch + m) (take (Suc m) ?b) = (Suc m = length ?b)"
      proof (cases "m < length batch")
        case True
        with Cons.prems(3) show ?thesis by simp
      next
        case False
        with m have "m = length batch" by simp
        with True Cons.prems(2) show ?thesis
          by (simp add: flush_now_spec_close)
      qed
    qed
    have "i - length batch + length ?b = Suc i"
      using Cons.prems(2) by simp
    with True ih ce show ?thesis
      by (simp add: Let_def)
  qed
qed

lemma pack_units:
  assumes "i + length es = Suc n" and "0 < i"
  shows "concat (pack C n i es []) = map entry_of es \<and> units_ok C n i (pack C n i es [])"
  using pack_units_aux [of i es n "[]" C] assms by simp

lemma pack_example:
  assumes "max_batch C = 5" and "max_residues C = 60" and "40 \<le> max_seq_len C" and "max_seq_len C < 50"
  shows "map (map entry_len) (pack C 5 1 example_seqs []) = [[50], [40, 10, 10], [5]]"
  using assms by (simp add: example_seqs_def flush_now_def Let_def)

subsection \<open>The dict only grows at its end\<close>

text \<open>A dict that starts with \<open>d0\<close> still does after a write under a key that \<open>d0\<close> does
  not have, hence after \<open>safe_embed\<close> on identifiers that \<open>d0\<close> does not have, whatever the
  encoder does.\<close>

lemma update_append_fresh:
  "k \<notin> fst ` set d0 \<Longrightarrow> AList.update k v (d0 @ r) = d0 @ AList.update k v r"
  by (induction d0) auto

lemma update_prefix:
  "prefix d0 d \<Longrightarrow> k \<notin> fst ` set d0 \<Longrightarrow> prefix d0 (AList.update k v d)"
  by (auto simp: prefix_def update_append_fresh)

lemma store_reps_prefix:
  "prefix d0 (emb_dict s) \<Longrightarrow> set ids \<inter> fst ` set d0 = {} \<Longrightarrow>
   prefix d0 (emb_dict (snd (store_reps E reps lens pp b ids s)))"
  by (induction ids arbitrary: b s) (auto simp: update_prefix)

lemma store_reps_keys:
  "fst ` set (emb_dict (snd (store_reps E reps lens pp b ids s)))
     \<subseteq> fst ` set (emb_dict s) \<union> set ids"
proof (induction ids arbitrary: b s)
  case Nil
  then show ?case by simp
next
  case (Cons uid ids)
  show ?case
  proof (cases "b < length lens \<and> b < length reps")
    case True
    let ?s = "s\<lparr>emb_dict := AList.update uid (pool E pp (lens ! b) (reps ! b)) (emb_dict s)\<rparr>"
    from Cons.IH [of "Suc b" ?s] True show ?thesis
      by (auto simp: AList.dom_update)
  next
    case False
    then show ?thesis by auto
  qed
qed

lemma store_cpu_prefix:
  "prefix d0 (emb_dict s) \<Longrightarrow> uid \<notin> fst ` set d0 \<Longrightarrow>
   prefix d0 (emb_dict (snd (store_cpu E reps lens pp uid s)))"
  by (auto simp: store_cpu_def update_prefix split: list.splits)

lemma store_cpu_keys:
  "fst ` set (emb_dict (snd (store_cpu E reps lens pp uid s)))
     \<subseteq> insert uid (fst ` set (emb_dict s))"
  by (auto simp: store_cpu_def AList.dom_update split: list.splits)

lemma safe_embed_prefix_aux:
  "prefix d0 (emb_dict s) \<and> set ids \<inter> fst ` set d0 = {} \<longrightarrow>
   prefix d0 (emb_dict (snd (safe_embed E ids seqs lens pp s)))"
proof (rule safe_embed_rule [where P = "\<lambda>ids seqs lens s res.
    prefix d0 (emb_dict s) \<and> set ids \<inter> fst ` set d0 = {} \<longrightarrow> prefix d0 (emb_dict (snd res))"],
    goal_cases)
  case (1 ids seqs lens s reps)
  then show ?case by (auto intro: store_reps_prefix)
next
  case (2 ids seqs lens s e)
  then show ?case by simp
next
  case (3 seqs lens s msg)
  then show ?case by simp
next
  case (4 uid seqs lens s msg)
  then show ?case by (auto split: sum.splits intro: store_cpu_prefix)
next
  case (5 ids seqs lens s msg e1 s2)
  have "set (take (length ids div 2) ids) \<subseteq> set ids" by (auto dest: in_set_takeD)
  with 5(5) show ?case by auto
next
  case (6 ids seqs lens s msg s2)
  have sub: "set (take (length ids div 2) ids) \<subseteq> set ids"
    "set (drop (length ids div 2) ids) \<subseteq> set ids"
    by (auto dest: in_set_takeD in_set_dropD)
  show ?case
  proof (intro impI, elim conjE)
    assume a: "prefix d0 (emb_dict s)" "set ids \<inter> fst ` set d0 = {}"
    with sub have "set (take (length ids div 2) ids) \<inter> fst ` set d0 = {}"
      "set (drop (length ids div 2) ids) \<inter> fst ` set d0 = {}" by auto
    with 6(5,6) a(1) show "prefix d0 (emb_dict (snd (safe_embed E (drop (length ids div 2) ids)
        (drop (length ids div 2) seqs) (drop (length ids div 2) lens) pp s2)))"
      by simp
  qed
qed

lemma safe_embed_keys:
  "fst ` set (emb_dict (snd (safe_embed E ids seqs lens pp s))) \<subseteq> fst ` set (emb_dict s) \<union> set ids"
proof (rule safe_embed_rule [where P = "\<lambda>ids seqs lens s res.
    fst ` set (emb_dict (snd res)) \<subseteq> fst ` set (emb_dict s) \<union> set ids"], goal_cases)
  case (1 ids seqs lens s reps)
  from store_reps_keys [of E reps lens pp 0 ids "s\<lparr>calls := calls s @ [(Gpu, seqs)]\<rparr>"]
  show ?case by simp
next
  case (2 ids seqs lens s e)
  then show ?case by simp
next
  case (3 seqs lens s msg)
  then show ?case by simp
next
  case (4 uid seqs lens s msg)
  show ?case
  proof (cases "model E (calls s @ [(Gpu, seqs)]) Cpu seqs")
    case (Inl e2)
    then show ?thesis by auto
  next
    case (Inr reps_cpu)
    from store_cpu_keys [of E reps_cpu lens pp uid "s\<lparr>calls := calls s @ [(Gpu, seqs), (Cpu, seqs)]\<rparr>"]
    show ?thesis by (simp add: Inr)
  qed
next
  case (5 ids seqs lens s msg e1 s2)
  have "set (take (length ids div 2) ids) \<subseteq> set ids" by (auto dest: in_set_takeD)
  with 5(5) show ?case by auto
next
  case (6 ids seqs lens s msg s2)
  have sub: "set (take (length ids div 2) ids) \<subseteq> set ids"
    "set (drop (length ids div 2) ids) \<subseteq> set ids"
    by (auto dest: in_set_takeD in_set_dropD)
  from 6(5) sub(1) have a: "fst ` set (emb_dict s2) \<subseteq> fst ` set (emb_dict s) \<union> set ids"
    by auto
  from 6(6) a sub(2) show ?case by blast
qed

subsection \<open>The loop hands the batches of pack to safe\_embed\<close>

text \<open>With an encoder that never raises on the primary device, each batch is one forward
  pass, and the passes of a run are the batches of \<open>pack\<close>, in order.\<close>

lemma store_reps_returns:
  "b + length ids \<le> length lens \<Longrightarrow> b + length ids \<le> length reps \<Longrightarrow>
   fst (store_reps E reps lens pp b ids s) = None"
  by (induction ids arbitrary: b s) auto

lemma embed_loop_pack:
  assumes "gpu_always_returns E" and "save_every C \<noteq> 0"
  shows "fst (embed_loop E out pp C n i es batch bidx s) = None \<and>
         calls (snd (embed_loop E out pp C n i es batch bidx s))
           = calls s @ map (\<lambda>u. (Gpu, map (fst \<circ> snd) u)) (pack C n i es batch)"
proof (induction es arbitrary: i batch bidx s)
  case Nil
  show ?case by simp
next
  case (Cons kv rest)
  let ?e = "entry_of kv"
  let ?b = "batch @ [?e]"
  show ?case
  proof (cases "flush_now C n i batch ?e")
    case False
    with Cons.IH [of "Suc i" ?b bidx s] show ?thesis by (simp add: Let_def)
  next
    case True
    let ?seqs = "map (fst \<circ> snd) ?b"
    let ?s1 = "s\<lparr>calls := calls s @ [(Gpu, ?seqs)]\<rparr>"
    from assms(1) obtain reps where
      reps: "model E (calls s) Gpu ?seqs = Inr reps" "length reps = length ?seqs"
      unfolding gpu_always_returns_def by blast
    let ?r = "store_reps E reps (map entry_len ?b) pp 0 (map fst ?b) ?s1"
    have se: "safe_embed E (map fst ?b) ?seqs (map entry_len ?b) pp s = ?r"
      by (rule safe_embed_ok [OF reps(1)])
    have f: "fst ?r = None"
      using reps(2) by (intro store_reps_returns) simp_all
    have c: "calls (snd ?r) = calls s @ [(Gpu, ?seqs)]" by simp
    obtain s2 where r: "?r = (None, s2)" using f by (cases ?r) auto
    from c have c2: "calls s2 = calls s @ [(Gpu, ?seqs)]"
      unfolding r by (simp only: snd_conv)
    have c3: "calls (save_step E out s2) = calls s @ [(Gpu, ?seqs)]"
      by (simp add: save_step_def c2)
    from se r have se2: "safe_embed E (map fst ?b) ?seqs (map entry_len ?b) pp s = (None, s2)"
      by simp
    from Cons.IH [of "Suc i" "[]" "Suc bidx" s2]
      Cons.IH [of "Suc i" "[]" "Suc bidx" "save_step E out s2"] True assms(2) c2 c3 se2
    show ?thesis
      by (simp add: Let_def)
  qed
qed

subsection \<open>The dicts saved form a chain\<close>

lemma chain_grow:
  "chain s \<Longrightarrow> prefix (emb_dict s) (emb_dict s1) \<Longrightarrow> saves s1 = saves s \<Longrightarrow> chain s1"
  by (auto simp: chain_def sorted_wrt_append intro: prefix_order.trans)

lemma chain_save: "chain s \<Longrightarrow> chain (save_step E out s)"
  by (auto simp: chain_def save_step_def sorted_wrt_append)

lemma embed_loop_chain:
  assumes "distinct (map fst batch @ map fst es)"
    and "(set (map fst batch) \<union> set (map fst es)) \<inter> fst ` set (emb_dict s) = {}"
    and "chain s"
  shows "chain (snd (embed_loop E out pp C n i es batch bidx s))"
  using assms
proof (induction es arbitrary: i batch bidx s)
  case Nil
  then show ?case by simp
next
  case (Cons kv rest)
  let ?e = "entry_of kv"
  let ?b = "batch @ [?e]"
  show ?case
  proof (cases "flush_now C n i batch ?e")
    case False
    have "chain (snd (embed_loop E out pp C n (Suc i) rest ?b bidx s))"
      using Cons.prems by (intro Cons.IH) auto
    with False show ?thesis by (simp add: Let_def)
  next
    case True
    let ?ids = "map fst ?b"
    let ?r = "safe_embed E ?ids (map (fst \<circ> snd) ?b) (map entry_len ?b) pp s"
    obtain x s1 where r: "?r = (x, s1)" by (cases ?r)
    have fresh: "set ?ids \<inter> fst ` set (emb_dict s) = {}"
      using Cons.prems(2) by auto
    from safe_embed_prefix_aux [of "emb_dict s" s ?ids E "map (fst \<circ> snd) ?b" "map entry_len ?b" pp]
      fresh r
    have p: "prefix (emb_dict s) (emb_dict s1)" by simp
    from safe_embed_frame [of E ?ids "map (fst \<circ> snd) ?b" "map entry_len ?b" pp s] r
    have sv: "saves s1 = saves s" by simp
    from safe_embed_keys [of E ?ids "map (fst \<circ> snd) ?b" "map entry_len ?b" pp s] r
    have k: "fst ` set (emb_dict s1) \<subseteq> fst ` set (emb_dict s) \<union> set ?ids" by simp
    have c1: "chain s1" by (rule chain_grow [OF Cons.prems(3) p sv])
    have d: "distinct (map fst ([] :: entry list) @ map fst rest)"
      using Cons.prems(1) by simp
    have "set (map fst rest) \<inter> (fst ` set (emb_dict s) \<union> set ?ids) = {}"
      using Cons.prems(1,2) by auto
    with k have "set (map fst rest) \<inter> fst ` set (emb_dict s1) = {}"
      by blast
    then have fr: "(set (map fst ([] :: entry list)) \<union> set (map fst rest))
                 \<inter> fst ` set (emb_dict s1) = {}"
      by simp
    have fr2: "(set (map fst ([] :: entry list)) \<union> set (map fst rest))
                 \<inter> fst ` set (emb_dict (save_step E out s1)) = {}"
      using fr by (simp add: save_step_def)
    note ih1 = Cons.IH [OF d fr c1, of "Suc i" "Suc bidx"]
    note ih2 = Cons.IH [OF d fr2 chain_save [OF c1], of "Suc i" "Suc bidx"]
    from True r c1 ih1 ih2 show ?thesis
      by (cases x) (simp_all add: Let_def)
  qed
qed

lemma prefix_map_of:
  "prefix xs ys \<Longrightarrow> map_of xs k = Some v \<Longrightarrow> map_of ys k = Some v"
  by (auto simp: prefix_def)

lemma prefix_keys: "prefix xs ys \<Longrightarrow> fst ` set xs \<subseteq> fst ` set ys"
  by (auto simp: prefix_def)

lemma embed_fasta_chain:
  assumes "distinct (map fst seqs)"
  shows "chain (snd (embed_fasta E seqs out pp C fs))"
proof (cases "seqs = []")
  case True
  then show ?thesis by (simp add: embed_fasta_def chain_def)
next
  case False
  let ?es = "sort_key (\<lambda>kv. - int (length (snd kv))) seqs"
  let ?s0 = "\<lparr>emb_dict = [], calls = [], files = fs, saves = []\<rparr> :: 'a state"
  have "distinct (map fst ?es)"
    using assms by (simp add: distinct_map)
  then have d: "distinct (map fst ([] :: entry list) @ map fst ?es)" by simp
  have f: "(set (map fst ([] :: entry list)) \<union> set (map fst ?es)) \<inter> fst ` set (emb_dict ?s0) = {}"
    by simp
  have c: "chain ?s0" by (simp add: chain_def)
  from embed_loop_chain [OF d f c] False show ?thesis
    by (simp add: embed_fasta_def Let_def)
qed

subsection \<open>The per-protein and the per-position run side by side\<close>

text \<open>
  The two runs of \<open>safe_embed\<close> on the same batch, from states with the same history, make
  the same forward passes and end alike; when they return, there is one list \<open>R\<close> of raw
  encoder outputs, one per member and each the answer of a pass of the run for that member,
  from which both dicts were filled.
\<close>

lemma pooled_nth:
  "length lens = n \<Longrightarrow> length R = n \<Longrightarrow>
   map (\<lambda>i. pool E pp (lens ! i) (R ! i)) [0..<n] = pooled E pp lens R"
  by (auto simp: pooled_def intro!: nth_equalityI)

lemma pooled_append:
  "length l1 = length R1 \<Longrightarrow> pooled E pp (l1 @ l2) (R1 @ R2) = pooled E pp l1 R1 @ pooled E pp l2 R2"
  by (simp add: pooled_def)

lemma length_pooled [simp]: "length (pooled E pp lens R) = min (length lens) (length R)"
  by (simp add: pooled_def)

lemma keys_append_zip:
  "length vals = length ids \<Longrightarrow> fst ` set (d @ zip ids vals) = fst ` set d \<union> set ids"
  by (simp add: image_Un) (metis map_fst_zip set_map)

lemma embedded_from_whole:
  assumes "model E (h0 @ pre) dev seqs = Inr reps" and "b < length seqs" and "b < length reps"
  shows "embedded_from E h0 (h0 @ pre @ [(dev, seqs)]) seqs b (reps ! b)"
proof -
  have "h0 @ pre @ [(dev, seqs)] = h0 @ pre @ (dev, take (length seqs) (drop 0 seqs)) # [] \<and>
        model E (h0 @ pre) dev (take (length seqs) (drop 0 seqs)) = Inr reps \<and>
        0 \<le> b \<and> b < 0 + length seqs \<and> 0 + length seqs \<le> length seqs \<and>
        b - 0 < length reps \<and> reps ! b = reps ! (b - 0)"
    using assms by simp
  then show ?thesis unfolding embedded_from_def by blast
qed

lemma embedded_from_left:
  assumes "embedded_from E (h0 @ c) h1 (take k seqs) b rep"
  shows "embedded_from E h0 (h1 @ post') seqs b rep"
proof -
  from assms obtain pre dev ofs m post reps where
    a: "h1 = (h0 @ c) @ pre @ (dev, take m (drop ofs (take k seqs))) # post"
      "model E ((h0 @ c) @ pre) dev (take m (drop ofs (take k seqs))) = Inr reps"
      "ofs \<le> b" "b < ofs + m" "ofs + m \<le> length (take k seqs)"
      "b - ofs < length reps" "rep = reps ! (b - ofs)"
    unfolding embedded_from_def by blast
  from a(5) have le: "ofs + m \<le> k" "ofs + m \<le> length seqs" by simp_all
  then have sl: "take m (drop ofs (take k seqs)) = take m (drop ofs seqs)"
    by (simp add: drop_take min_def)
  have "h1 @ post' = h0 @ (c @ pre) @ (dev, take m (drop ofs seqs)) # (post @ post') \<and>
        model E (h0 @ (c @ pre)) dev (take m (drop ofs seqs)) = Inr reps \<and>
        ofs \<le> b \<and> b < ofs + m \<and> ofs + m \<le> length seqs \<and>
        b - ofs < length reps \<and> rep = reps ! (b - ofs)"
    using a le by (simp add: sl)
  then show ?thesis unfolding embedded_from_def by blast
qed

lemma embedded_from_right:
  assumes "embedded_from E (h0 @ c) h1 (drop k seqs) b rep" and "k \<le> length seqs"
  shows "embedded_from E h0 h1 seqs (k + b) rep"
proof -
  from assms(1) obtain pre dev ofs m post reps where
    a: "h1 = (h0 @ c) @ pre @ (dev, take m (drop ofs (drop k seqs))) # post"
      "model E ((h0 @ c) @ pre) dev (take m (drop ofs (drop k seqs))) = Inr reps"
      "ofs \<le> b" "b < ofs + m" "ofs + m \<le> length (drop k seqs)"
      "b - ofs < length reps" "rep = reps ! (b - ofs)"
    unfolding embedded_from_def by blast
  have sl: "take m (drop ofs (drop k seqs)) = take m (drop (k + ofs) seqs)"
    by (simp add: add.commute)
  have "h1 = h0 @ (c @ pre) @ (dev, take m (drop (k + ofs) seqs)) # post \<and>
        model E (h0 @ (c @ pre)) dev (take m (drop (k + ofs) seqs)) = Inr reps \<and>
        k + ofs \<le> k + b \<and> k + b < (k + ofs) + m \<and> (k + ofs) + m \<le> length seqs \<and>
        (k + b) - (k + ofs) < length reps \<and> rep = reps ! ((k + b) - (k + ofs))"
    using a assms(2) by (auto simp: add.commute)
  then show ?thesis unfolding embedded_from_def by blast
qed

lemma both_filledI:
  "length R = length ids \<Longrightarrow> emb_dict s' = emb_dict s @ zip ids (pooled E True lens R) \<Longrightarrow>
   emb_dict t' = emb_dict t @ zip ids (pooled E False lens R) \<Longrightarrow>
   (\<And>b. b < length ids \<Longrightarrow> embedded_from E (calls s) (calls s') seqs b (R ! b)) \<Longrightarrow>
   both_filled E s t ids seqs lens s' t'"
  unfolding both_filled_def by blast

lemma safe_embed_modes_src:
  assumes sh: "oracle_shaped E"
  shows "\<forall>t. calls t = calls s \<and> ids \<noteq> [] \<and> length seqs = length ids \<and> length lens = length ids
           \<and> distinct ids \<and> set ids \<inter> fst ` set (emb_dict s) = {}
           \<and> set ids \<inter> fst ` set (emb_dict t) = {} \<longrightarrow>
         fst (safe_embed E ids seqs lens False t) = fst (safe_embed E ids seqs lens True s) \<and>
         calls (snd (safe_embed E ids seqs lens False t)) = calls (snd (safe_embed E ids seqs lens True s)) \<and>
         (fst (safe_embed E ids seqs lens True s) = None \<longrightarrow>
            both_filled E s t ids seqs lens (snd (safe_embed E ids seqs lens True s))
              (snd (safe_embed E ids seqs lens False t)))"
proof (rule safe_embed_rule [where P = "\<lambda>ids seqs lens s res.
    \<forall>t. calls t = calls s \<and> ids \<noteq> [] \<and> length seqs = length ids \<and> length lens = length ids
           \<and> distinct ids \<and> set ids \<inter> fst ` set (emb_dict s) = {}
           \<and> set ids \<inter> fst ` set (emb_dict t) = {} \<longrightarrow>
         fst (safe_embed E ids seqs lens False t) = fst res \<and>
         calls (snd (safe_embed E ids seqs lens False t)) = calls (snd res) \<and>
         (fst res = None \<longrightarrow>
            both_filled E s t ids seqs lens (snd res) (snd (safe_embed E ids seqs lens False t)))"],
    goal_cases)
  case (1 ids seqs lens s reps)
  show ?case
  proof (intro allI impI, elim conjE)
    fix t :: "'a state"
    assume a: "calls t = calls s" "length seqs = length ids" "length lens = length ids"
      "distinct ids" "set ids \<inter> fst ` set (emb_dict s) = {}" "set ids \<inter> fst ` set (emb_dict t) = {}"
    from sh 1 have lr: "length reps = length ids" by (auto simp: oracle_shaped_def a)
    let ?s1 = "s\<lparr>calls := calls s @ [(Gpu, seqs)]\<rparr>"
    let ?t1 = "t\<lparr>calls := calls t @ [(Gpu, seqs)]\<rparr>"
    let ?s' = "?s1\<lparr>emb_dict := emb_dict ?s1 @ zip ids (pooled E True lens reps)\<rparr>"
    let ?t' = "?t1\<lparr>emb_dict := emb_dict ?t1 @ zip ids (pooled E False lens reps)\<rparr>"
    have t: "safe_embed E ids seqs lens False t = store_reps E reps lens False 0 ids ?t1"
      using 1 by (intro safe_embed_ok) (simp add: a)
    have rs: "store_reps E reps lens True 0 ids ?s1 = (None, ?s')"
      using a lr by (subst store_reps_append) (simp_all add: pooled_nth)
    have rt: "store_reps E reps lens False 0 ids ?t1 = (None, ?t')"
      using a lr by (subst store_reps_append) (simp_all add: pooled_nth)
    have src: "embedded_from E (calls s) (calls ?s') seqs b (reps ! b)" if "b < length ids" for b
      using embedded_from_whole [of E "calls s" "[]" Gpu seqs reps b] 1 that lr a(2) by simp
    have bf: "both_filled E s t ids seqs lens ?s' ?t'"
      using lr src by (intro both_filledI [of reps]) simp_all
    show "fst (safe_embed E ids seqs lens False t) = fst (store_reps E reps lens True 0 ids ?s1) \<and>
       calls (snd (safe_embed E ids seqs lens False t)) = calls (snd (store_reps E reps lens True 0 ids ?s1)) \<and>
       (fst (store_reps E reps lens True 0 ids ?s1) = None \<longrightarrow>
          both_filled E s t ids seqs lens (snd (store_reps E reps lens True 0 ids ?s1))
            (snd (safe_embed E ids seqs lens False t)))"
      unfolding t rs rt using bf a(1) by simp
  qed
next
  case (2 ids seqs lens s e)
  show ?case
  proof (intro allI impI, elim conjE)
    fix t :: "'a state"
    assume a: "calls t = calls s"
    have "safe_embed E ids seqs lens False t = (Some e, t\<lparr>calls := calls t @ [(Gpu, seqs)]\<rparr>)"
      using 2 by (intro safe_embed_fatal) (simp_all add: a)
    then show "fst (safe_embed E ids seqs lens False t) = fst (Some e, s\<lparr>calls := calls s @ [(Gpu, seqs)]\<rparr>) \<and>
       calls (snd (safe_embed E ids seqs lens False t)) = calls (snd (Some e, s\<lparr>calls := calls s @ [(Gpu, seqs)]\<rparr>)) \<and>
       (fst (Some e, s\<lparr>calls := calls s @ [(Gpu, seqs)]\<rparr>) = None \<longrightarrow>
          both_filled E s t ids seqs lens (snd (Some e, s\<lparr>calls := calls s @ [(Gpu, seqs)]\<rparr>))
            (snd (safe_embed E ids seqs lens False t)))"
      by (simp add: a)
  qed
next
  case (3 seqs lens s msg)
  show ?case by simp
next
  case (4 uid seqs lens s msg)
  let ?s2 = "s\<lparr>calls := calls s @ [(Gpu, seqs), (Cpu, seqs)]\<rparr>"
  let ?res = "case model E (calls s @ [(Gpu, seqs)]) Cpu seqs of
                Inl e2 \<Rightarrow> (Some e2, ?s2)
              | Inr reps_cpu \<Rightarrow> store_cpu E reps_cpu lens True uid ?s2"
  show ?case
  proof (intro allI impI, elim conjE)
    fix t :: "'a state"
    assume a: "calls t = calls s" "length seqs = length [uid]" "length lens = length [uid]"
      "set [uid] \<inter> fst ` set (emb_dict s) = {}" "set [uid] \<inter> fst ` set (emb_dict t) = {}"
    let ?t2 = "t\<lparr>calls := calls t @ [(Gpu, seqs), (Cpu, seqs)]\<rparr>"
    obtain l where l: "lens = [l]" using a(3) by (cases lens) auto
    have fs: "uid \<notin> fst ` set (emb_dict s)" and ft: "uid \<notin> fst ` set (emb_dict t)"
      using a(4,5) by auto
    have t: "safe_embed E [uid] seqs lens False t =
        (case model E (calls s @ [(Gpu, seqs)]) Cpu seqs of
           Inl e2 \<Rightarrow> (Some e2, ?t2)
         | Inr reps_cpu \<Rightarrow> store_cpu E reps_cpu lens False uid ?t2)"
      using 4 safe_embed_single [of E t seqs msg uid lens False] by (simp add: a)
    show "fst (safe_embed E [uid] seqs lens False t) = fst ?res \<and>
       calls (snd (safe_embed E [uid] seqs lens False t)) = calls (snd ?res) \<and>
       (fst ?res = None \<longrightarrow>
          both_filled E s t [uid] seqs lens (snd ?res) (snd (safe_embed E [uid] seqs lens False t)))"
    proof (cases "model E (calls s @ [(Gpu, seqs)]) Cpu seqs")
      case (Inl e2)
      then show ?thesis by (simp add: t a(1))
    next
      case (Inr reps_cpu)
      with sh a(2) have "length reps_cpu = 1" by (auto simp: oracle_shaped_def)
      then obtain rep where rep: "reps_cpu = [rep]" by (cases reps_cpu) auto
      let ?s' = "?s2\<lparr>emb_dict := emb_dict s @ [(uid, pool E True l rep)]\<rparr>"
      let ?t' = "?t2\<lparr>emb_dict := emb_dict t @ [(uid, pool E False l rep)]\<rparr>"
      have rs: "?res = (None, ?s')"
        by (simp add: Inr rep l store_cpu_def update_fresh [OF fs])
      have rt: "safe_embed E [uid] seqs lens False t = (None, ?t')"
        unfolding t by (simp add: Inr rep l store_cpu_def update_fresh [OF ft])
      have src: "embedded_from E (calls s) (calls ?s') seqs b ([rep] ! b)" if "b < length [uid]" for b
        using embedded_from_whole [of E "calls s" "[(Gpu, seqs)]" Cpu seqs "[rep]" b] Inr rep that a(2)
        by simp
      have bf: "both_filled E s t [uid] seqs lens ?s' ?t'"
        using src by (intro both_filledI [of "[rep]"]) (simp_all add: pooled_def l)
      show ?thesis
        unfolding rs rt using bf a(1) by simp
    qed
  qed
next
  case (5 ids seqs lens s msg e1 s2)
  let ?mid = "length ids div 2"
  show ?case
  proof (intro allI impI, elim conjE)
    fix t :: "'a state"
    assume a: "calls t = calls s" "ids \<noteq> []" "length seqs = length ids" "length lens = length ids"
      "distinct ids" "set ids \<inter> fst ` set (emb_dict s) = {}" "set ids \<inter> fst ` set (emb_dict t) = {}"
    let ?t1 = "t\<lparr>calls := calls t @ [(Gpu, seqs)]\<rparr>"
    let ?lt = "safe_embed E (take ?mid ids) (take ?mid seqs) (take ?mid lens) False ?t1"
    from 5(3) have mid: "0 < ?mid" "?mid < length ids" by auto
    have sub: "set (take ?mid ids) \<subseteq> set ids" by (auto dest: in_set_takeD)
    have pre: "calls ?t1 = calls (s\<lparr>calls := calls s @ [(Gpu, seqs)]\<rparr>) \<and> take ?mid ids \<noteq> [] \<and>
        length (take ?mid seqs) = length (take ?mid ids) \<and>
        length (take ?mid lens) = length (take ?mid ids) \<and> distinct (take ?mid ids) \<and>
        set (take ?mid ids) \<inter> fst ` set (emb_dict (s\<lparr>calls := calls s @ [(Gpu, seqs)]\<rparr>)) = {} \<and>
        set (take ?mid ids) \<inter> fst ` set (emb_dict ?t1) = {}"
      using a mid sub by auto
    from 5(5) [rule_format, OF pre] have l: "fst ?lt = Some e1" "calls (snd ?lt) = calls s2"
      by simp_all
    have t: "safe_embed E ids seqs lens False t = ?lt"
      using 5(1,2,3) l(1) safe_embed_split [of E t seqs msg ids lens False]
      by (cases ?lt) (simp add: a(1))
    show "fst (safe_embed E ids seqs lens False t) = fst (Some e1, s2) \<and>
       calls (snd (safe_embed E ids seqs lens False t)) = calls (snd (Some e1, s2)) \<and>
       (fst (Some e1, s2) = None \<longrightarrow>
          both_filled E s t ids seqs lens (snd (Some e1, s2)) (snd (safe_embed E ids seqs lens False t)))"
      unfolding t using l by simp
  qed
next
  case (6 ids seqs lens s msg s2)
  let ?mid = "length ids div 2"
  let ?s1 = "s\<lparr>calls := calls s @ [(Gpu, seqs)]\<rparr>"
  let ?res = "safe_embed E (drop ?mid ids) (drop ?mid seqs) (drop ?mid lens) True s2"
  show ?case
  proof (intro allI impI, elim conjE)
    fix t :: "'a state"
    assume a: "calls t = calls s" "ids \<noteq> []" "length seqs = length ids" "length lens = length ids"
      "distinct ids" "set ids \<inter> fst ` set (emb_dict s) = {}" "set ids \<inter> fst ` set (emb_dict t) = {}"
    let ?t1 = "t\<lparr>calls := calls t @ [(Gpu, seqs)]\<rparr>"
    let ?lt = "safe_embed E (take ?mid ids) (take ?mid seqs) (take ?mid lens) False ?t1"
    from 6(3) have mid: "0 < ?mid" "?mid < length ids" by auto
    have sub: "set (take ?mid ids) \<subseteq> set ids" "set (drop ?mid ids) \<subseteq> set ids"
      by (auto dest: in_set_takeD in_set_dropD)
    have dis: "distinct (take ?mid ids)" "distinct (drop ?mid ids)"
      "set (take ?mid ids) \<inter> set (drop ?mid ids) = {}"
      using a(5) distinct_append [of "take ?mid ids" "drop ?mid ids"] by simp_all
    have pre: "calls ?t1 = calls ?s1 \<and> take ?mid ids \<noteq> [] \<and>
        length (take ?mid seqs) = length (take ?mid ids) \<and>
        length (take ?mid lens) = length (take ?mid ids) \<and> distinct (take ?mid ids) \<and>
        set (take ?mid ids) \<inter> fst ` set (emb_dict ?s1) = {} \<and>
        set (take ?mid ids) \<inter> fst ` set (emb_dict ?t1) = {}"
      using a mid sub by auto
    from 6(5) [rule_format, OF pre] have
      l: "fst ?lt = None" "calls (snd ?lt) = calls s2" and
      bl: "both_filled E ?s1 ?t1 (take ?mid ids) (take ?mid seqs) (take ?mid lens) s2 (snd ?lt)"
      by simp_all
    from bl obtain R1 where
      R1: "length R1 = length (take ?mid ids)"
        "emb_dict s2 = emb_dict s @ zip (take ?mid ids) (pooled E True (take ?mid lens) R1)"
        "emb_dict (snd ?lt) = emb_dict t @ zip (take ?mid ids) (pooled E False (take ?mid lens) R1)"
        "\<forall>b<length (take ?mid ids).
           embedded_from E (calls ?s1) (calls s2) (take ?mid seqs) b (R1 ! b)"
      unfolding both_filled_def by auto
    obtain t2 where lt: "?lt = (None, t2)" using l(1) by (cases ?lt) auto
    let ?rt = "safe_embed E (drop ?mid ids) (drop ?mid seqs) (drop ?mid lens) False t2"
    have t: "safe_embed E ids seqs lens False t = ?rt"
      using 6(1,2,3) lt safe_embed_split [of E t seqs msg ids lens False]
      by (simp add: a(1))
    have lp: "length (pooled E pp (take ?mid lens) R1) = length (take ?mid ids)" for pp
      using R1(1) a(4) by simp
    have k2: "fst ` set (emb_dict s2) = fst ` set (emb_dict s) \<union> set (take ?mid ids)"
      unfolding R1(2) by (rule keys_append_zip [OF lp])
    have kt: "fst ` set (emb_dict t2) = fst ` set (emb_dict t) \<union> set (take ?mid ids)"
      using R1(3) keys_append_zip [OF lp [of False], of "emb_dict t"] by (simp add: lt)
    have pre2: "calls t2 = calls s2 \<and> drop ?mid ids \<noteq> [] \<and>
        length (drop ?mid seqs) = length (drop ?mid ids) \<and>
        length (drop ?mid lens) = length (drop ?mid ids) \<and> distinct (drop ?mid ids) \<and>
        set (drop ?mid ids) \<inter> fst ` set (emb_dict s2) = {} \<and>
        set (drop ?mid ids) \<inter> fst ` set (emb_dict t2) = {}"
      using a mid sub dis l(2) lt k2 kt by auto
    note r = 6(6) [rule_format, OF pre2]
    show "fst (safe_embed E ids seqs lens False t) = fst ?res \<and>
       calls (snd (safe_embed E ids seqs lens False t)) = calls (snd ?res) \<and>
       (fst ?res = None \<longrightarrow>
          both_filled E s t ids seqs lens (snd ?res) (snd (safe_embed E ids seqs lens False t)))"
      unfolding t
    proof (intro conjI impI)
      show "fst ?rt = fst ?res" using r by simp
      show "calls (snd ?rt) = calls (snd ?res)" using r by simp
      assume "fst ?res = None"
      with r have "both_filled E s2 t2 (drop ?mid ids) (drop ?mid seqs) (drop ?mid lens)
          (snd ?res) (snd ?rt)"
        by simp
      then obtain R2 where
        R2: "length R2 = length (drop ?mid ids)"
          "emb_dict (snd ?res) = emb_dict s2 @ zip (drop ?mid ids) (pooled E True (drop ?mid lens) R2)"
          "emb_dict (snd ?rt) = emb_dict t2 @ zip (drop ?mid ids) (pooled E False (drop ?mid lens) R2)"
          "\<forall>b<length (drop ?mid ids).
             embedded_from E (calls s2) (calls (snd ?res)) (drop ?mid seqs) b (R2 ! b)"
        unfolding both_filled_def by auto
      have pa: "pooled E pp lens (R1 @ R2)
                  = pooled E pp (take ?mid lens) R1 @ pooled E pp (drop ?mid lens) R2" for pp
        using pooled_append [of "take ?mid lens" R1 E pp "drop ?mid lens" R2] R1(1) a(4)
        by simp
      have za: "zip ids (pooled E pp lens (R1 @ R2))
                  = zip (take ?mid ids) (pooled E pp (take ?mid lens) R1)
                    @ zip (drop ?mid ids) (pooled E pp (drop ?mid lens) R2)" for pp
      proof -
        have "zip (take ?mid ids @ drop ?mid ids)
                (pooled E pp (take ?mid lens) R1 @ pooled E pp (drop ?mid lens) R2)
              = zip (take ?mid ids) (pooled E pp (take ?mid lens) R1)
                @ zip (drop ?mid ids) (pooled E pp (drop ?mid lens) R2)"
          using lp [of pp] by (simp only: zip_append)
        then show ?thesis by (simp add: pa)
      qed
      have len: "length (R1 @ R2) = length ids" using R1(1) R2(1) mid by simp
      have dT: "emb_dict (snd ?res) = emb_dict s @ zip ids (pooled E True lens (R1 @ R2))"
        by (simp add: R2(2) R1(2) za)
      have dF: "emb_dict (snd ?rt) = emb_dict t @ zip ids (pooled E False lens (R1 @ R2))"
        using R1(3) by (simp add: R2(3) lt za)
      obtain k1 where k1: "calls s2 = calls ?s1 @ k1"
        using safe_embed_calls [of E "take ?mid ids" "take ?mid seqs" "take ?mid lens" True ?s1]
          6(4) by auto
      obtain k2' where k2': "calls (snd ?res) = calls s2 @ k2'"
        using safe_embed_calls [of E "drop ?mid ids" "drop ?mid seqs" "drop ?mid lens" True s2]
        by auto
      have src: "embedded_from E (calls s) (calls (snd ?res)) seqs b ((R1 @ R2) ! b)"
        if b: "b < length ids" for b
      proof (cases "b < ?mid")
        case True
        with R1(1,4) mid have
          e: "embedded_from E (calls s @ [(Gpu, seqs)]) (calls s2) (take ?mid seqs) b (R1 ! b)"
          by simp
        from True R1(1) mid have "(R1 @ R2) ! b = R1 ! b" by (simp add: nth_append)
        with embedded_from_left [OF e, of k2'] k2' show ?thesis by simp
      next
        case False
        let ?b = "b - ?mid"
        from False b have b': "?b < length (drop ?mid ids)" by simp
        with R2(4) have
          "embedded_from E (calls s2) (calls (snd ?res)) (drop ?mid seqs) ?b (R2 ! ?b)"
          by blast
        then have e: "embedded_from E (calls s @ ([(Gpu, seqs)] @ k1)) (calls (snd ?res))
            (drop ?mid seqs) ?b (R2 ! ?b)"
          using k1 by simp
        have "?mid \<le> length seqs" using mid a(3) by simp
        from embedded_from_right [OF e this] False have
          "embedded_from E (calls s) (calls (snd ?res)) seqs b (R2 ! ?b)" by simp
        moreover from False R1(1) mid have "(R1 @ R2) ! b = R2 ! ?b"
          by (simp add: nth_append min_def)
        ultimately show ?thesis by simp
      qed
      show "both_filled E s t ids seqs lens (snd ?res) (snd ?rt)"
        using len dT dF src by (intro both_filledI [of "R1 @ R2"])
    qed
  qed
qed

section \<open>The claims\<close>

lemmas eval_defs = embed_fasta_def safe_embed.simps stub_env_def stub_model_def residues_def stub_oom
  empty_state_def store_cpu_def pool_def width_def stub_encode_def arith_mean_def
  squeeze1_def squeeze2_def flush_now_def entry_of_def entry_len_def replace_char_def save_step_def
  save_ids_and_embeddings_tsv_def tsv_content_def tsv_line_def flatten_def default_config_def
  stub_str_def show_nat.simps Let_def

subsection \<open>safe\_embed\<close>

text \<open>
  C4. For a batch of \<open>n \<ge> 1\<close> sequences, \<open>safe_embed\<close> makes at most \<open>2 * n - 1\<close> forward
  passes on the primary device, whatever the encoder answers and whether the call returns
  or raises. (The passes of the CPU fallback are the secondary path, not counted here.)
\<close>

theorem safe_embed_oracle_calls_bound:
  "ids \<noteq> [] \<Longrightarrow>
   gpu_calls (calls (snd (safe_embed E ids seqs_spaced lens per_protein s)))
     \<le> gpu_calls (calls s) + (2 * length ids - 1)"
proof -
  have "ids \<noteq> [] \<longrightarrow>
     gpu_calls (calls (snd (safe_embed E ids seqs_spaced lens per_protein s))) + 1
       \<le> gpu_calls (calls s) + 2 * length ids"
  proof (rule safe_embed_rule [where P = "\<lambda>ids seqs lens s res.
      ids \<noteq> [] \<longrightarrow> gpu_calls (calls (snd res)) + 1 \<le> gpu_calls (calls s) + 2 * length ids"],
      goal_cases)
    case (1 ids seqs lens s reps)
    then show ?case by (cases ids) auto
  next
    case (2 ids seqs lens s e)
    then show ?case by (cases ids) auto
  next
    case (3 seqs lens s msg)
    then show ?case by simp
  next
    case (4 uid seqs lens s msg)
    then show ?case by (auto split: sum.splits)
  next
    case (5 ids seqs lens s msg e1 s2)
    then show ?case by auto
  next
    case (6 ids seqs lens s msg s2)
    then show ?case by auto
  qed
  moreover assume "ids \<noteq> []"
  ultimately show ?thesis by (cases ids) auto
qed

text \<open>The bound is reached: with a stub that is out of memory on every batch, two
  sequences take three passes on the primary device.\<close>

theorem safe_embed_oracle_calls_bound_witness:
  "[''p1'', ''p2''] \<noteq> [] \<and>
   gpu_calls (calls (snd (safe_embed (stub_env 0) [''p1'', ''p2''] [''M'', ''K''] [1, 1] True
      empty_state)))
     \<le> gpu_calls (calls empty_state) + (2 * length [''p1'', ''p2''] - 1) \<and>
   gpu_calls (calls (snd (safe_embed (stub_env 0) [''p1'', ''p2''] [''M'', ''K''] [1, 1] True
      empty_state))) = 3"
proof -
  have h: "[''p1'', ''p2''] \<noteq> []" by simp
  have v: "gpu_calls (calls (snd (safe_embed (stub_env 0) [''p1'', ''p2''] [''M'', ''K''] [1, 1]
             True empty_state))) = 3"
    by (simp add: eval_defs)
  from safe_embed_oracle_calls_bound [OF h] have
    "gpu_calls (calls (snd (safe_embed (stub_env 0) [''p1'', ''p2''] [''M'', ''K''] [1, 1] True
        empty_state)))
       \<le> gpu_calls (calls empty_state) + (2 * length [''p1'', ''p2''] - 1)" .
  with h v show ?thesis by (intro conjI)
qed

text \<open>
  C1. Under an encoder that, on the primary device, either returns (one matrix per
  sequence) or signals out of memory, \<open>safe_embed\<close> on a non-empty batch of distinct
  identifiers not yet in the dict either returns, and then the dict has grown by exactly one
  entry per member, in the order of the batch, through every split and every CPU
  fallback; or it raises, and then the exception is the one the CPU pass of a single
  sequence raised, that pass being the last one made.
\<close>

theorem safe_embed_exactly_once:
  assumes "oracle_shaped E" and "gpu_fails_only_oom E"
    and "ids \<noteq> []" and "length seqs_spaced = length ids" and "length lens = length ids"
    and "distinct ids" and "set ids \<inter> fst ` set (emb_dict s) = {}"
  shows "case safe_embed E ids seqs_spaced lens per_protein s of
           (None, s') \<Rightarrow> \<exists>vals. length vals = length ids \<and> emb_dict s' = emb_dict s @ zip ids vals
         | (Some e, s') \<Rightarrow> \<exists>h sq. calls s' = h @ [(Cpu, [sq])] \<and> model E h Cpu [sq] = Inl e"
  using safe_embed_exactly_once_aux [OF assms(1,2), of seqs_spaced ids lens s per_protein]
    assms(3-7)
  by simp

text \<open>With the stub that is out of memory above 2 residues, the batch of 5 residues is
  split, its first half (one sequence of 3 residues) goes to the CPU, the second half passes.\<close>

theorem safe_embed_exactly_once_witness:
  "oracle_shaped (stub_env 2) \<and> gpu_fails_only_oom (stub_env 2) \<and>
   [''p1'', ''p2'', ''p3''] \<noteq> [] \<and>
   length [''M K L'', ''A'', ''G''] = length [''p1'', ''p2'', ''p3''] \<and>
   length [3, 1, 1 :: nat] = length [''p1'', ''p2'', ''p3''] \<and>
   distinct [''p1'', ''p2'', ''p3''] \<and>
   set [''p1'', ''p2'', ''p3''] \<inter> fst ` set (emb_dict empty_state) = {} \<and>
   (case safe_embed (stub_env 2) [''p1'', ''p2'', ''p3''] [''M K L'', ''A'', ''G''] [3, 1, 1] True
           empty_state of
      (None, s') \<Rightarrow> \<exists>vals. length vals = length [''p1'', ''p2'', ''p3'']
                     \<and> emb_dict s' = emb_dict empty_state @ zip [''p1'', ''p2'', ''p3''] vals
    | (Some e, s') \<Rightarrow> \<exists>h sq. calls s' = h @ [(Cpu, [sq])] \<and> model (stub_env 2) h Cpu [sq] = Inl e) \<and>
   safe_embed (stub_env 2) [''p1'', ''p2'', ''p3''] [''M K L'', ''A'', ''G''] [3, 1, 1] True empty_state =
     (None, empty_state\<lparr>emb_dict := [(''p1'', Arr1 [76, 1]), (''p2'', Arr1 [65, 1]), (''p3'', Arr1 [71, 1])],
               calls := [(Gpu, [''M K L'', ''A'', ''G'']), (Gpu, [''M K L'']), (Cpu, [''M K L'']),
                         (Gpu, [''A'', ''G''])]\<rparr>)"
proof -
  have h3: "[''p1'', ''p2'', ''p3''] \<noteq> []" by simp
  have h4: "length [''M K L'', ''A'', ''G''] = length [''p1'', ''p2'', ''p3'']" by simp
  have h5: "length [3, 1, 1 :: nat] = length [''p1'', ''p2'', ''p3'']" by simp
  have h6: "distinct [''p1'', ''p2'', ''p3'']" by simp
  have h7: "set [''p1'', ''p2'', ''p3''] \<inter> fst ` set (emb_dict empty_state) = {}"
    by (simp add: empty_state_def)
  have v: "safe_embed (stub_env 2) [''p1'', ''p2'', ''p3''] [''M K L'', ''A'', ''G''] [3, 1, 1] True
       empty_state =
     (None, empty_state\<lparr>emb_dict := [(''p1'', Arr1 [76, 1]), (''p2'', Arr1 [65, 1]), (''p3'', Arr1 [71, 1])],
               calls := [(Gpu, [''M K L'', ''A'', ''G'']), (Gpu, [''M K L'']), (Cpu, [''M K L'']),
                         (Gpu, [''A'', ''G''])]\<rparr>)"
    by (simp add: eval_defs)
  note c = safe_embed_exactly_once [OF stub_shaped stub_only_oom h3 h4 h5 h6 h7,
      where per_protein = True]
  from stub_shaped stub_only_oom h3 h4 h5 h6 h7 c v show ?thesis
    by (intro conjI)
qed

text \<open>
  C6, as the code has it. When the primary pass of a batch of one sequence signals out of
  memory, exactly one CPU pass follows; if that pass raises, \<open>safe_embed\<close> raises the very
  same exception (no exception of its own, and nothing added to the message) with the dict
  as it was, and makes no further pass.
\<close>

theorem singleton_fallback:
  assumes "model E (calls s) Gpu seqs_spaced = Inl (RuntimeError msg)" and "is_oom msg"
  shows "calls (snd (safe_embed E [uid] seqs_spaced lens per_protein s))
           = calls s @ [(Gpu, seqs_spaced), (Cpu, seqs_spaced)] \<and>
         (\<forall>e2. model E (calls s @ [(Gpu, seqs_spaced)]) Cpu seqs_spaced = Inl e2 \<longrightarrow>
            safe_embed E [uid] seqs_spaced lens per_protein s
              = (Some e2, s\<lparr>calls := calls s @ [(Gpu, seqs_spaced), (Cpu, seqs_spaced)]\<rparr>))"
  by (simp add: safe_embed_single [OF assms] split: sum.splits)

theorem singleton_fallback_witness:
  "model failing_env (calls empty_state) Gpu [''M K''] = Inl (RuntimeError ''CUDA out of memory.'') \<and>
   is_oom ''CUDA out of memory.'' \<and>
   model failing_env (calls empty_state @ [(Gpu, [''M K''])]) Cpu [''M K'']
     = Inl (RuntimeError ''not enough memory'') \<and>
   calls (snd (safe_embed failing_env [''p1''] [''M K''] [2] True empty_state))
     = calls empty_state @ [(Gpu, [''M K'']), (Cpu, [''M K''])] \<and>
   safe_embed failing_env [''p1''] [''M K''] [2] True empty_state
     = (Some (RuntimeError ''not enough memory''),
        empty_state\<lparr>calls := calls empty_state @ [(Gpu, [''M K'']), (Cpu, [''M K''])]\<rparr>)"
proof -
  have h1: "model failing_env (calls empty_state) Gpu [''M K'']
              = Inl (RuntimeError ''CUDA out of memory.'')"
    by (simp add: failing_env_def failing_model_def)
  have h2: "model failing_env (calls empty_state @ [(Gpu, [''M K''])]) Cpu [''M K'']
              = Inl (RuntimeError ''not enough memory'')"
    by (simp add: failing_env_def failing_model_def)
  note c = singleton_fallback [OF h1 stub_oom, of "''p1''" "[2]" True]
  note c2 = c [THEN conjunct2, rule_format, OF h2]
  from h1 stub_oom h2 c [THEN conjunct1] c2 show ?thesis
    by (intro conjI)
qed

text \<open>The claim fails where it says that the exception names the sequence: the CPU pass
  of \<open>p1\<close> raises a RuntimeError, and that is what leaves \<open>safe_embed\<close>.\<close>

theorem singleton_fallback_error_counterexample:
  "safe_embed failing_env [''p1''] [''M K''] [2] True empty_state
     = (Some (RuntimeError ''not enough memory''),
        empty_state\<lparr>calls := [(Gpu, [''M K'']), (Cpu, [''M K''])]\<rparr>) \<and>
   \<not> names_identifier (RuntimeError ''not enough memory'') ''p1''"
proof -
  have "\<not> sublist ''p1'' ''not enough memory''" by code_simp
  then show ?thesis
    by (simp add: safe_embed.simps failing_env_def failing_model_def stub_oom empty_state_def
        names_identifier_def)
qed

text \<open>
  C5, as the code has it. Storing the result of a sequence whose identifier is already a
  key raises nothing: the call returns, the entry holds the new value, and the keys are
  the same as before. This holds for the store after the primary pass and for the store
  after the CPU fallback.
\<close>

theorem put_overwrites:
  assumes "uid \<in> fst ` set (emb_dict s)"
    and "model E (calls s) Gpu [sq] = Inr [rep] \<or>
         (\<exists>msg. model E (calls s) Gpu [sq] = Inl (RuntimeError msg) \<and> is_oom msg \<and>
            model E (calls s @ [(Gpu, [sq])]) Cpu [sq] = Inr [rep])"
  shows "fst (safe_embed E [uid] [sq] [l] per_protein s) = None \<and>
         map_of (emb_dict (snd (safe_embed E [uid] [sq] [l] per_protein s))) uid
           = Some (pool E per_protein l rep) \<and>
         map fst (emb_dict (snd (safe_embed E [uid] [sq] [l] per_protein s)))
           = map fst (emb_dict s)"
proof -
  have keys: "map fst (AList.update uid v (emb_dict s)) = map fst (emb_dict s)" for v
    using assms(1) by (simp add: AList.update_keys)
  from assms(2) show ?thesis
    by (auto simp: safe_embed_ok safe_embed_single store_cpu_def AList.update_conv' keys)
qed

theorem put_overwrites_witness:
  "''p1'' \<in> fst ` set (emb_dict seeded_state) \<and>
   (model (stub_env 5) (calls seeded_state) Gpu [''M''] = Inr [[[77, 1], [0, 0]]] \<or>
      (\<exists>msg. model (stub_env 5) (calls seeded_state) Gpu [''M''] = Inl (RuntimeError msg) \<and>
         is_oom msg \<and>
         model (stub_env 5) (calls seeded_state @ [(Gpu, [''M''])]) Cpu [''M'']
           = Inr [[[77, 1], [0, 0]]])) \<and>
   fst (safe_embed (stub_env 5) [''p1''] [''M''] [1] True seeded_state) = None \<and>
   map_of (emb_dict (snd (safe_embed (stub_env 5) [''p1''] [''M''] [1] True seeded_state))) ''p1''
       = Some (pool (stub_env 5) True 1 [[77, 1], [0, 0]]) \<and>
   map fst (emb_dict (snd (safe_embed (stub_env 5) [''p1''] [''M''] [1] True seeded_state)))
       = map fst (emb_dict seeded_state)"
proof -
  have h1: "''p1'' \<in> fst ` set (emb_dict seeded_state)"
    by (simp add: seeded_state_def empty_state_def)
  have h2: "model (stub_env 5) (calls seeded_state) Gpu [''M''] = Inr [[[77, 1], [0, 0]]] \<or>
      (\<exists>msg. model (stub_env 5) (calls seeded_state) Gpu [''M''] = Inl (RuntimeError msg) \<and>
         is_oom msg \<and>
         model (stub_env 5) (calls seeded_state @ [(Gpu, [''M''])]) Cpu [''M'']
           = Inr [[[77, 1], [0, 0]]])"
    by (simp add: stub_env_def stub_model_def residues_def stub_encode_def)
  note c = put_overwrites [OF h1 h2, of 1 True]
  from h1 h2 c [THEN conjunct1] c [THEN conjunct2, THEN conjunct1]
    c [THEN conjunct2, THEN conjunct2]
  show ?thesis by (intro conjI)
qed

text \<open>The claim fails: with \<open>p1\<close> already a key, storing a result for \<open>p1\<close> returns and
  the old entry is gone, after the primary pass (stub with room for 5 residues) and after
  the CPU fallback (stub with room for none).\<close>

theorem put_present_id_counterexample:
  "safe_embed (stub_env 5) [''p1''] [''M''] [1] True seeded_state
     = (None, seeded_state\<lparr>emb_dict := [(''p1'', Arr1 [77, 1])], calls := [(Gpu, [''M''])]\<rparr>) \<and>
   safe_embed (stub_env 0) [''p1''] [''M''] [1] True seeded_state
     = (None, seeded_state\<lparr>emb_dict := [(''p1'', Arr1 [77, 1])],
                          calls := [(Gpu, [''M'']), (Cpu, [''M''])]\<rparr>) \<and>
   map_of (emb_dict seeded_state) ''p1'' = Some (Arr1 [0, 0])"
  by (simp add: eval_defs seeded_state_def)

text \<open>
  C8. Whenever the per-protein run of \<open>safe_embed\<close> on a batch returns, the per-position
  run on the same batch returns too, after the same forward passes, and for every member
  \<open>b\<close>, with \<open>rep\<close> what the encoder returned for it in the pass that embedded it (on the
  primary device or in the CPU fallback, on the whole batch or on a part of it after
  splits): the per-position run stored the rows of \<open>rep\<close> up to the true length (squeezed
  as numpy does), and the per-protein run stored \<^verbatim>\<open>mean(dim=0)\<close> of exactly these rows.
  The mean is the library's, whatever it computes for the rows it is given (for torch the
  floating-point mean of each column, NaN over no row); no member is excepted.
\<close>

theorem pooled_is_mean_of_per_position:
  assumes "oracle_shaped E"
    and "ids \<noteq> []" and "length seqs_spaced = length ids" and "length lens = length ids"
    and "distinct ids" and "set ids \<inter> fst ` set (emb_dict s) = {}"
    and "fst (safe_embed E ids seqs_spaced lens True s) = None"
  shows "fst (safe_embed E ids seqs_spaced lens False s) = None \<and>
     calls (snd (safe_embed E ids seqs_spaced lens False s))
       = calls (snd (safe_embed E ids seqs_spaced lens True s)) \<and>
     (\<forall>b<length ids. \<exists>rep.
        embedded_from E (calls s) (calls (snd (safe_embed E ids seqs_spaced lens True s)))
          seqs_spaced b rep \<and>
        map_of (emb_dict (snd (safe_embed E ids seqs_spaced lens False s))) (ids ! b)
          = Some (squeeze2 (take (lens ! b) rep)) \<and>
        map_of (emb_dict (snd (safe_embed E ids seqs_spaced lens True s))) (ids ! b)
          = Some (squeeze1 (mean_dim0 E (width rep) (take (lens ! b) rep))))"
proof -
  let ?T = "safe_embed E ids seqs_spaced lens True s"
  let ?F = "safe_embed E ids seqs_spaced lens False s"
  from safe_embed_modes_src [OF assms(1), of s ids seqs_spaced lens, rule_format, of s] assms(2-7)
  have f: "fst ?F = None" and c: "calls (snd ?F) = calls (snd ?T)"
    and bf: "both_filled E s s ids seqs_spaced lens (snd ?T) (snd ?F)"
    by simp_all
  from bf obtain R where R: "length R = length ids"
    and dT: "emb_dict (snd ?T) = emb_dict s @ zip ids (pooled E True lens R)"
    and dF: "emb_dict (snd ?F) = emb_dict s @ zip ids (pooled E False lens R)"
    and src: "\<forall>b<length ids. embedded_from E (calls s) (calls (snd ?T)) seqs_spaced b (R ! b)"
    unfolding both_filled_def by blast
  have look: "map_of (emb_dict s @ zip ids (pooled E pp lens R)) (ids ! b)
                = Some (pool E pp (lens ! b) (R ! b))" if "b < length ids" for pp b
  proof -
    have "ids ! b \<in> set ids" using that by simp
    with assms(6) have "ids ! b \<notin> fst ` set (emb_dict s)" by blast
    then have "map_of (emb_dict s) (ids ! b) = None"
      by (simp add: map_of_eq_None_iff)
    moreover have "map_of (zip ids (pooled E pp lens R)) (ids ! b) = Some (pooled E pp lens R ! b)"
      using that R assms(4,5) by (intro map_of_zip_nth) simp_all
    moreover have "pooled E pp lens R ! b = pool E pp (lens ! b) (R ! b)"
      using that R assms(4) by (simp add: pooled_def)
    ultimately show ?thesis by (simp add: map_add_def)
  qed
  have "\<exists>rep.
        embedded_from E (calls s) (calls (snd ?T)) seqs_spaced b rep \<and>
        map_of (emb_dict (snd ?F)) (ids ! b) = Some (squeeze2 (take (lens ! b) rep)) \<and>
        map_of (emb_dict (snd ?T)) (ids ! b)
          = Some (squeeze1 (mean_dim0 E (width rep) (take (lens ! b) rep)))"
    if "b < length ids" for b
    using look [OF that] src that unfolding dT dF
    by (intro exI [of _ "R ! b"]) (simp add: pool_def Let_def)
  with f c show ?thesis by blast
qed

text \<open>The batch of the run shown for C1: \<open>p1\<close> (three residues M, K, L, embedded on the
  CPU after a split) gets the first three of the four rows the stub returned for it in
  per-position mode, and their mean in per-protein mode.\<close>

theorem pooled_is_mean_of_per_position_witness:
  "oracle_shaped (stub_env 2) \<and>
   [''p1'', ''p2'', ''p3''] \<noteq> [] \<and>
   length [''M K L'', ''A'', ''G''] = length [''p1'', ''p2'', ''p3''] \<and>
   length [3, 1, 1 :: nat] = length [''p1'', ''p2'', ''p3''] \<and>
   distinct [''p1'', ''p2'', ''p3''] \<and>
   set [''p1'', ''p2'', ''p3''] \<inter> fst ` set (emb_dict empty_state) = {} \<and>
   fst (safe_embed (stub_env 2) [''p1'', ''p2'', ''p3''] [''M K L'', ''A'', ''G''] [3, 1, 1] True
          empty_state) = None \<and>
   fst (safe_embed (stub_env 2) [''p1'', ''p2'', ''p3''] [''M K L'', ''A'', ''G''] [3, 1, 1] False
          empty_state) = None \<and>
   calls (snd (safe_embed (stub_env 2) [''p1'', ''p2'', ''p3''] [''M K L'', ''A'', ''G''] [3, 1, 1]
       False empty_state))
     = calls (snd (safe_embed (stub_env 2) [''p1'', ''p2'', ''p3''] [''M K L'', ''A'', ''G'']
       [3, 1, 1] True empty_state)) \<and>
   (\<exists>rep.
      embedded_from (stub_env 2) (calls empty_state)
        (calls (snd (safe_embed (stub_env 2) [''p1'', ''p2'', ''p3''] [''M K L'', ''A'', ''G'']
           [3, 1, 1] True empty_state)))
        [''M K L'', ''A'', ''G''] 0 rep \<and>
      map_of (emb_dict (snd (safe_embed (stub_env 2) [''p1'', ''p2'', ''p3'']
          [''M K L'', ''A'', ''G''] [3, 1, 1] False empty_state))) ([''p1'', ''p2'', ''p3''] ! 0)
        = Some (squeeze2 (take ([3, 1, 1] ! 0) rep)) \<and>
      map_of (emb_dict (snd (safe_embed (stub_env 2) [''p1'', ''p2'', ''p3'']
          [''M K L'', ''A'', ''G''] [3, 1, 1] True empty_state))) ([''p1'', ''p2'', ''p3''] ! 0)
        = Some (squeeze1 (mean_dim0 (stub_env 2) (width rep) (take ([3, 1, 1] ! 0) rep)))) \<and>
   embedded_from (stub_env 2) (calls empty_state)
      [(Gpu, [''M K L'', ''A'', ''G'']), (Gpu, [''M K L'']), (Cpu, [''M K L'']), (Gpu, [''A'', ''G''])]
      [''M K L'', ''A'', ''G''] 0 [[77, 1], [75, 1], [76, 1], [0, 0]] \<and>
   calls (snd (safe_embed (stub_env 2) [''p1'', ''p2'', ''p3''] [''M K L'', ''A'', ''G''] [3, 1, 1]
       True empty_state))
     = [(Gpu, [''M K L'', ''A'', ''G'']), (Gpu, [''M K L'']), (Cpu, [''M K L'']), (Gpu, [''A'', ''G''])] \<and>
   emb_dict (snd (safe_embed (stub_env 2) [''p1'', ''p2'', ''p3''] [''M K L'', ''A'', ''G''] [3, 1, 1]
       False empty_state))
     = [(''p1'', Arr2 [[77, 1], [75, 1], [76, 1]]), (''p2'', Arr1 [65, 1]), (''p3'', Arr1 [71, 1])] \<and>
   emb_dict (snd (safe_embed (stub_env 2) [''p1'', ''p2'', ''p3''] [''M K L'', ''A'', ''G''] [3, 1, 1]
       True empty_state))
     = [(''p1'', Arr1 [76, 1]), (''p2'', Arr1 [65, 1]), (''p3'', Arr1 [71, 1])] \<and>
   squeeze2 (take 3 [[77, 1], [75, 1], [76, 1], [0, 0 :: real]]) = Arr2 [[77, 1], [75, 1], [76, 1]] \<and>
   squeeze1 (mean_dim0 (stub_env 2) 2 (take 3 [[77, 1], [75, 1], [76, 1], [0, 0]])) = Arr1 [76, 1]"
proof -
  have h3: "[''p1'', ''p2'', ''p3''] \<noteq> []" by simp
  have h4: "length [''M K L'', ''A'', ''G''] = length [''p1'', ''p2'', ''p3'']" by simp
  have h5: "length [3, 1, 1 :: nat] = length [''p1'', ''p2'', ''p3'']" by simp
  have h6: "distinct [''p1'', ''p2'', ''p3'']" by simp
  have h7: "set [''p1'', ''p2'', ''p3''] \<inter> fst ` set (emb_dict empty_state) = {}"
    by (simp add: empty_state_def)
  have h8: "fst (safe_embed (stub_env 2) [''p1'', ''p2'', ''p3''] [''M K L'', ''A'', ''G'']
      [3, 1, 1] True empty_state) = None"
    by (simp add: eval_defs)
  have v0: "calls (snd (safe_embed (stub_env 2) [''p1'', ''p2'', ''p3''] [''M K L'', ''A'', ''G'']
         [3, 1, 1] True empty_state))
     = [(Gpu, [''M K L'', ''A'', ''G'']), (Gpu, [''M K L'']), (Cpu, [''M K L'']), (Gpu, [''A'', ''G''])]"
    by (simp add: eval_defs)
  have v1: "emb_dict (snd (safe_embed (stub_env 2) [''p1'', ''p2'', ''p3''] [''M K L'', ''A'', ''G'']
         [3, 1, 1] False empty_state))
     = [(''p1'', Arr2 [[77, 1], [75, 1], [76, 1]]), (''p2'', Arr1 [65, 1]), (''p3'', Arr1 [71, 1])]"
    by (simp add: eval_defs)
  have v2: "emb_dict (snd (safe_embed (stub_env 2) [''p1'', ''p2'', ''p3''] [''M K L'', ''A'', ''G'']
         [3, 1, 1] True empty_state))
     = [(''p1'', Arr1 [76, 1]), (''p2'', Arr1 [65, 1]), (''p3'', Arr1 [71, 1])]"
    by (simp add: eval_defs)
  have v3: "squeeze2 (take 3 [[77, 1], [75, 1], [76, 1], [0, 0 :: real]])
      = Arr2 [[77, 1], [75, 1], [76, 1]]"
    by (simp add: squeeze2_def)
  have v4: "squeeze1 (mean_dim0 (stub_env 2) 2 (take 3 [[77, 1], [75, 1], [76, 1], [0, 0]]))
      = Arr1 [76, 1]"
    by (simp add: stub_env_def arith_mean_def squeeze1_def upt_rec)
  have src0: "embedded_from (stub_env 2) (calls empty_state)
      [(Gpu, [''M K L'', ''A'', ''G'']), (Gpu, [''M K L'']), (Cpu, [''M K L'']), (Gpu, [''A'', ''G''])]
      [''M K L'', ''A'', ''G''] 0 [[77, 1], [75, 1], [76, 1], [0, 0]]"
    unfolding embedded_from_def
    by (rule exI [of _ "[(Gpu, [''M K L'', ''A'', ''G'']), (Gpu, [''M K L''])]"], rule exI [of _ Cpu],
        rule exI [of _ 0], rule exI [of _ 1], rule exI [of _ "[(Gpu, [''A'', ''G''])]"],
        rule exI [of _ "[[[77, 1], [75, 1], [76, 1], [0, 0]]]"])
       (simp add: empty_state_def stub_env_def stub_model_def stub_encode_def)
  note c = pooled_is_mean_of_per_position [OF stub_shaped h3 h4 h5 h6 h7 h8]
  have b0: "0 < length [''p1'', ''p2'', ''p3'']" by simp
  note c0 = c [THEN conjunct2, THEN conjunct2, rule_format, OF b0]
  from stub_shaped h3 h4 h5 h6 h7 h8 c [THEN conjunct1] c [THEN conjunct2, THEN conjunct1] c0
    src0 v0 v1 v2 v3 v4
  show ?thesis
    by (intro conjI)
qed

subsection \<open>save\_ids\_and\_embeddings\_tsv\<close>

text \<open>
  C10. Saving an empty dict returns before the file is opened: the file system is the
  same afterwards, so a file at the destination keeps its content and none is created.
\<close>

theorem flush_empty_untouched:
  "save_ids_and_embeddings_tsv E [] tsv_path fs = fs"
  by (simp add: save_ids_and_embeddings_tsv_def)

text \<open>
  C7, as the code has it. Saving a dict that is not empty replaces whatever was at the
  destination by one line per key, the keys in ascending order, each line the key, a tab,
  the values of the array separated by single spaces, and a newline; no other file changes.
\<close>

theorem flush_snapshot:
  assumes "d \<noteq> []" and "distinct (map fst d)"
  shows "\<exists>ks. sorted ks \<and> distinct ks \<and> set ks = fst ` set d \<and>
           save_ids_and_embeddings_tsv E d tsv_path fs =
             fs(tsv_path \<mapsto>
                concat (map (\<lambda>uid. uid @ [CHR 0x09]
                                @ join '' '' (map (str_float E) (flatten (the (map_of d uid))))
                                @ [CHR 0x0A]) ks))"
proof (intro exI conjI)
  show "sorted (sort (map fst d))" by simp
  show "distinct (sort (map fst d))" using assms(2) by simp
  show "set (sort (map fst d)) = fst ` set d" by simp
  have "tsv_line E d uid = uid @ [CHR 0x09]
          @ join '' '' (map (str_float E) (flatten (the (map_of d uid)))) @ [CHR 0x0A]"
    if "uid \<in> set (sort (map fst d))" for uid
  proof -
    from that have "uid \<in> fst ` set d" by simp
    then obtain a where "map_of d uid = Some a"
      by (auto dest!: weak_map_of_SomeI)
    then show ?thesis by (simp add: tsv_line_def)
  qed
  then have eq: "map (tsv_line E d) (sort (map fst d)) =
      map (\<lambda>uid. uid @ [CHR 0x09]
             @ join '' '' (map (str_float E) (flatten (the (map_of d uid)))) @ [CHR 0x0A])
        (sort (map fst d))"
    by (intro map_cong) simp_all
  show "save_ids_and_embeddings_tsv E d tsv_path fs =
      fs(tsv_path \<mapsto>
         concat (map (\<lambda>uid. uid @ [CHR 0x09]
                         @ join '' '' (map (str_float E) (flatten (the (map_of d uid))))
                         @ [CHR 0x0A]) (sort (map fst d))))"
    using assms(1) by (simp only: save_ids_and_embeddings_tsv_def tsv_content_def eq if_False)
qed

theorem flush_snapshot_witness:
  "example_dict \<noteq> [] \<and> distinct (map fst example_dict) \<and>
   (\<exists>ks. sorted ks \<and> distinct ks \<and> set ks = fst ` set example_dict \<and>
      save_ids_and_embeddings_tsv (stub_env 0) example_dict ''out.tsv'' [''out.tsv'' \<mapsto> ''stale''] =
        [''out.tsv'' \<mapsto> ''stale''](''out.tsv'' \<mapsto>
           concat (map (\<lambda>uid. uid @ [CHR 0x09]
                     @ join '' '' (map (str_float (stub_env 0))
                         (flatten (the (map_of example_dict uid))))
                     @ [CHR 0x0A]) ks))) \<and>
   save_ids_and_embeddings_tsv (stub_env 0) example_dict ''out.tsv'' [''out.tsv'' \<mapsto> ''stale'']
       ''out.tsv''
     = Some (''a10'' @ [CHR 0x09] @ ''1.0 2.0 3.0 4.0'' @ [CHR 0x0A]
             @ ''a2'' @ [CHR 0x09] @ ''3.0'' @ [CHR 0x0A]
             @ ''b1'' @ [CHR 0x09] @ ''1.0 2.0'' @ [CHR 0x0A])"
proof -
  have h1: "example_dict \<noteq> []" by (simp add: example_dict_def)
  have h2: "distinct (map fst example_dict)" by (simp add: example_dict_def)
  have v: "save_ids_and_embeddings_tsv (stub_env 0) example_dict ''out.tsv''
       [''out.tsv'' \<mapsto> ''stale''] ''out.tsv''
     = Some (''a10'' @ [CHR 0x09] @ ''1.0 2.0 3.0 4.0'' @ [CHR 0x0A]
             @ ''a2'' @ [CHR 0x09] @ ''3.0'' @ [CHR 0x0A]
             @ ''b1'' @ [CHR 0x09] @ ''1.0 2.0'' @ [CHR 0x0A])"
    by (simp add: eval_defs example_dict_def)
  note c = flush_snapshot [OF h1 h2, of "stub_env 0" "''out.tsv''" "[''out.tsv'' \<mapsto> ''stale'']"]
  from h1 h2 c v show ?thesis
    by (intro conjI)
qed

text \<open>The claim fails for the empty dict: the stale file is still there, and it is not
  what serialising the empty dict gives.\<close>

theorem flush_every_call_counterexample:
  "save_ids_and_embeddings_tsv (stub_env 0) [] ''out.tsv'' [''out.tsv'' \<mapsto> ''stale''] ''out.tsv''
     = Some ''stale'' \<and>
   tsv_content (stub_env 0) [] = [] \<and> ''stale'' \<noteq> tsv_content (stub_env 0) []"
  by (simp add: save_ids_and_embeddings_tsv_def tsv_content_def)

subsection \<open>embed\_fasta\<close>

text \<open>
  C9. In a run of \<open>embed_fasta\<close> on a dict of sequences (distinct keys), whether it returns
  or raises, each dict saved is extended by the next one saved and by the final dict: the
  set of keys only grows and a key, once present, keeps its value.
\<close>

theorem store_grows_monotonically:
  assumes "distinct (map fst seqs)"
    and "s' = snd (embed_fasta E seqs out_npz per_protein C fs)"
  shows "(\<forall>k. Suc k < length (saves s') \<longrightarrow>
            fst ` set (saves s' ! k) \<subseteq> fst ` set (saves s' ! Suc k) \<and>
            (\<forall>uid v. map_of (saves s' ! k) uid = Some v \<longrightarrow> map_of (saves s' ! Suc k) uid = Some v)) \<and>
         (\<forall>k<length (saves s').
            fst ` set (saves s' ! k) \<subseteq> fst ` set (emb_dict s') \<and>
            (\<forall>uid v. map_of (saves s' ! k) uid = Some v \<longrightarrow> map_of (emb_dict s') uid = Some v))"
proof -
  from embed_fasta_chain [OF assms(1), of E out_npz per_protein C fs] assms(2)
  have c: "sorted_wrt prefix (saves s' @ [emb_dict s'])"
    by (simp add: chain_def)
  have p1: "prefix (saves s' ! k) (saves s' ! Suc k)" if "Suc k < length (saves s')" for k
  proof -
    from c have "sorted_wrt prefix (saves s')" by (simp add: sorted_wrt_append)
    with that show ?thesis by (simp add: sorted_wrt_iff_nth_less)
  qed
  have p2: "prefix (saves s' ! k) (emb_dict s')" if "k < length (saves s')" for k
    using c that by (simp add: sorted_wrt_append)
  show ?thesis
    using p1 p2 by (blast intro: prefix_map_of dest: prefix_keys)
qed

text \<open>Two sequences, one batch each, a save after each batch: the first dict saved has
  \<open>p2\<close>, the second has \<open>p2\<close> with the same value and \<open>p1\<close>.\<close>

theorem store_grows_monotonically_witness:
  "distinct (map fst [(''p1'', ''A''), (''p2'', ''MK'')]) \<and>
   saves (snd (embed_fasta (stub_env 9) [(''p1'', ''A''), (''p2'', ''MK'')] ''out.tsv'' True
       (default_config\<lparr>max_batch := 1, save_every := 1\<rparr>) Map.empty))
     = [[(''p2'', Arr1 [76, 1])], [(''p2'', Arr1 [76, 1]), (''p1'', Arr1 [65, 1])]] \<and>
   Suc 0 < length (saves (snd (embed_fasta (stub_env 9) [(''p1'', ''A''), (''p2'', ''MK'')]
       ''out.tsv'' True (default_config\<lparr>max_batch := 1, save_every := 1\<rparr>) Map.empty))) \<and>
   fst ` set (saves (snd (embed_fasta (stub_env 9) [(''p1'', ''A''), (''p2'', ''MK'')] ''out.tsv''
       True (default_config\<lparr>max_batch := 1, save_every := 1\<rparr>) Map.empty)) ! 0)
     \<subseteq> fst ` set (saves (snd (embed_fasta (stub_env 9) [(''p1'', ''A''), (''p2'', ''MK'')]
       ''out.tsv'' True (default_config\<lparr>max_batch := 1, save_every := 1\<rparr>) Map.empty)) ! Suc 0) \<and>
   map_of (saves (snd (embed_fasta (stub_env 9) [(''p1'', ''A''), (''p2'', ''MK'')] ''out.tsv''
       True (default_config\<lparr>max_batch := 1, save_every := 1\<rparr>) Map.empty)) ! 0) ''p2''
     = Some (Arr1 [76, 1]) \<and>
   map_of (saves (snd (embed_fasta (stub_env 9) [(''p1'', ''A''), (''p2'', ''MK'')] ''out.tsv''
       True (default_config\<lparr>max_batch := 1, save_every := 1\<rparr>) Map.empty)) ! Suc 0) ''p2''
     = Some (Arr1 [76, 1])"
proof -
  let ?r = "embed_fasta (stub_env 9) [(''p1'', ''A''), (''p2'', ''MK'')] ''out.tsv'' True
       (default_config\<lparr>max_batch := 1, save_every := 1\<rparr>) Map.empty"
  have h1: "distinct (map fst [(''p1'', ''A''), (''p2'', ''MK'')])" by simp
  have v: "saves (snd ?r)
     = [[(''p2'', Arr1 [76, 1])], [(''p2'', Arr1 [76, 1]), (''p1'', Arr1 [65, 1])]]"
    by (simp add: eval_defs)
  have l: "Suc 0 < length (saves (snd ?r))" by (simp add: v)
  have m: "map_of (saves (snd ?r) ! 0) ''p2'' = Some (Arr1 [76, 1])" by (simp add: v)
  note c = store_grows_monotonically [OF h1 refl, of "stub_env 9" "''out.tsv''" True
      "default_config\<lparr>max_batch := 1, save_every := 1\<rparr>" Map.empty, THEN conjunct1,
      rule_format, OF l]
  note c2 = c [THEN conjunct2, rule_format, OF m]
  from h1 v l c [THEN conjunct1] m c2 show ?thesis
    by (intro conjI)
qed

text \<open>
  C2, as the code has it. For the five sequences of lengths 50, 40, 10, 10 and 5 with
  \<^verbatim>\<open>max_batch\<close> 5 and \<^verbatim>\<open>max_residues\<close> 60, the batches are [50], [40, 10, 10], [5] when
  \<^verbatim>\<open>max_seq_len\<close> is at least 40 and below 50. In general the batches of a whole input are
  its entries in order, cut so that each batch was closed exactly when the closing rule of
  the specification held for it.
\<close>

theorem batch_packer_closing_rule:
  "(max_batch C = 5 \<and> max_residues C = 60 \<and> 40 \<le> max_seq_len C \<and> max_seq_len C < 50 \<longrightarrow>
      map (map entry_len) (pack C 5 1 example_seqs []) = [[50], [40, 10, 10], [5]]) \<and>
   (0 < i \<and> i + length es = Suc n \<longrightarrow>
      concat (pack C n i es []) = map entry_of es \<and> units_ok C n i (pack C n i es []))"
  using pack_example [of C] pack_units [of i es n C] by blast

theorem batch_packer_closing_rule_witness:
  "max_batch (default_config\<lparr>max_batch := 5, max_residues := 60, max_seq_len := 45\<rparr>) = 5 \<and>
   max_residues (default_config\<lparr>max_batch := 5, max_residues := 60, max_seq_len := 45\<rparr>) = 60 \<and>
   40 \<le> max_seq_len (default_config\<lparr>max_batch := 5, max_residues := 60, max_seq_len := 45\<rparr>) \<and>
   max_seq_len (default_config\<lparr>max_batch := 5, max_residues := 60, max_seq_len := 45\<rparr>) < 50 \<and>
   (0 :: nat) < 1 \<and> 1 + length example_seqs = Suc 5 \<and>
   map (map entry_len)
     (pack (default_config\<lparr>max_batch := 5, max_residues := 60, max_seq_len := 45\<rparr>) 5 1
        example_seqs [])
     = [[50], [40, 10, 10], [5]] \<and>
   concat (pack (default_config\<lparr>max_batch := 5, max_residues := 60, max_seq_len := 45\<rparr>) 5 1
       example_seqs [])
     = map entry_of example_seqs \<and>
   units_ok (default_config\<lparr>max_batch := 5, max_residues := 60, max_seq_len := 45\<rparr>) 5 1
     (pack (default_config\<lparr>max_batch := 5, max_residues := 60, max_seq_len := 45\<rparr>) 5 1
        example_seqs [])"
proof -
  let ?C = "default_config\<lparr>max_batch := 5, max_residues := 60, max_seq_len := 45\<rparr>"
  have h: "max_batch ?C = 5" "max_residues ?C = 60" "40 \<le> max_seq_len ?C" "max_seq_len ?C < 50"
    by (simp_all add: default_config_def)
  have g: "(0 :: nat) < 1" "1 + length example_seqs = Suc 5"
    by (simp_all add: example_seqs_def)
  note c = batch_packer_closing_rule [of ?C 1 example_seqs 5]
  from c h have c1: "map (map entry_len) (pack ?C 5 1 example_seqs []) = [[50], [40, 10, 10], [5]]"
    by blast
  from c g have c2: "concat (pack ?C 5 1 example_seqs []) = map entry_of example_seqs"
    and c3: "units_ok ?C 5 1 (pack ?C 5 1 example_seqs [])"
    by blast+
  from h g c1 c2 c3 show ?thesis by (intro conjI)
qed

text \<open>The claim fails for the defaults of the command line (\<^verbatim>\<open>max_seq_len\<close> 1000): 50
  residues do not reach 60, so the first batch stays open and takes the second sequence.
  The stub has room for 1000 residues, so each batch is one pass.\<close>

theorem packer_example_counterexample:
  "map (map residues \<circ> snd)
     (calls (snd (embed_fasta (stub_env 1000) example_seqs ''out.tsv'' False
        (default_config\<lparr>max_batch := 5, max_residues := 60\<rparr>) Map.empty)))
   = [[50, 40], [10, 10, 5]]"
  by code_simp

text \<open>
  C3 (the code does not do this). \<^verbatim>\<open>auto_shrink\<close> is off, the stub is out of memory
  above one residue: the batch of two sequences is split all the same, the sequence of two
  residues goes to the CPU, and the run returns with both embeddings.
\<close>

theorem auto_shrink_off_still_recovers:
  "auto_shrink default_config = False \<and>
   fst (embed_fasta (stub_env 1) [(''p1'', ''A''), (''p2'', ''MK'')] ''out.tsv'' True
          default_config Map.empty) = None \<and>
   calls (snd (embed_fasta (stub_env 1) [(''p1'', ''A''), (''p2'', ''MK'')] ''out.tsv'' True
          default_config Map.empty))
     = [(Gpu, [''M K'', ''A'']), (Gpu, [''M K'']), (Cpu, [''M K'']), (Gpu, [''A''])] \<and>
   emb_dict (snd (embed_fasta (stub_env 1) [(''p1'', ''A''), (''p2'', ''MK'')] ''out.tsv'' True
          default_config Map.empty))
     = [(''p2'', Arr1 [76, 1]), (''p1'', Arr1 [65, 1])]"
  by (simp add: eval_defs)

end
